theory Spec2Isabelle
  imports Main "HOL-Library.Multiset"
begin

section \<open>Tag validation (src/utils/utils.ts)\<close>

text \<open>
  Strings are lists of 8-bit characters. \<open>String.prototype.toUpperCase\<close> is modelled on
  the ASCII letters; every other character is left as it is.
\<close>

definition upper_char :: "char \<Rightarrow> char" where
  "upper_char c =
     (case map_of (zip ''abcdefghijklmnopqrstuvwxyz'' ''ABCDEFGHIJKLMNOPQRSTUVWXYZ'') c of
        Some u \<Rightarrow> u
      | None \<Rightarrow> c)"

definition toUpperCase :: "string \<Rightarrow> string" where
  "toUpperCase s = map upper_char s"

text \<open>\<^verbatim>\<open>.replace(/O/g, '0')\<close>: every capital O becomes the digit zero.\<close>

definition replace_O :: "string \<Rightarrow> string" where
  "replace_O s = map (\<lambda>c. if c = CHR ''O'' then CHR ''0'' else c) s"

text \<open>\<^verbatim>\<open>.replace('#', '')\<close>: a string pattern replaces the first occurrence only.\<close>

definition remove_hash :: "string \<Rightarrow> string" where
  "remove_hash s = remove1 (CHR ''#'') s"

text \<open>The character class \<^verbatim>\<open>[0289PYLQGRJCUV]\<close>.\<close>

definition tag_char :: "char \<Rightarrow> bool" where
  "tag_char c = (c \<in> set ''0289PYLQGRJCUV'')"

text \<open>
  \<^verbatim>\<open>/[0289PYLQGRJCUV]{3,9}/g.exec(tag)\<close> on a fresh regular expression: the leftmost
  position from which at least three class characters follow, matched greedily up to nine
  characters. The result is the matched text, or \<open>None\<close> for \<^verbatim>\<open>null\<close>.
\<close>

fun tagRegex_exec :: "string \<Rightarrow> string option" where
  "tagRegex_exec [] = None"
| "tagRegex_exec (c # cs) =
     (let m = takeWhile tag_char (take 9 (c # cs))
      in if 3 \<le> length m then Some m else tagRegex_exec cs)"

text \<open>
  \<open>validateTag msg encode\<close>; \<open>None\<close> is the source's \<^verbatim>\<open>false\<close>. With \<open>encode\<close> the
  result goes through \<^verbatim>\<open>encodeURIComponent\<close>, which leaves the class characters alone
  and writes the hash sign as \<^verbatim>\<open>%23\<close>.
\<close>

definition validateTag :: "string \<Rightarrow> bool \<Rightarrow> string option" where
  "validateTag msg encode =
     (if msg = [] then None
      else
        (let tag = remove_hash (replace_O (toUpperCase msg)) in
         case tagRegex_exec tag of
           Some result \<Rightarrow> if encode then Some (''%23'' @ result) else Some (CHR ''#'' # result)
         | None \<Rightarrow> None))"

section \<open>The fetch primitive (src/utils/utils.ts)\<close>

text \<open>
  A parsed JSON body. Numbers are kept as integers; the only use the code makes of a parsed
  body is its truthiness (\<^verbatim>\<open>!parsed\<close>).
\<close>

datatype json =
    JNull
  | JBool bool
  | JNum int
  | JStr string
  | JArr "json list"
  | JObj "(string \<times> json) list"

fun truthy :: "json \<Rightarrow> bool" where
  "truthy JNull = False"
| "truthy (JBool b) = b"
| "truthy (JNum n) = (n \<noteq> 0)"
| "truthy (JStr s) = (s \<noteq> [])"
| "truthy (JArr xs) = True"
| "truthy (JObj kvs) = True"

text \<open>
  What \<^verbatim>\<open>node-fetch\<close> hands back. \<open>res_json = None\<close> stands for a body on which
  \<^verbatim>\<open>res.json()\<close> rejects; \<open>cache_control = None\<close> for a response without that header
  (\<^verbatim>\<open>headers.get\<close> returns \<^verbatim>\<open>null\<close>).
\<close>

record response =
  res_status :: int
  res_json :: "json option"
  cache_control :: "string option"

datatype outcome = TransportFailure | Responded response

text \<open>
  The request paths of the engine, kept as terms: \<^verbatim>\<open>/clans/{tag}\<close>,
  \<^verbatim>\<open>/players/{tag}\<close>, \<^verbatim>\<open>/clans/{tag}/currentwar\<close> and
  \<^verbatim>\<open>/clans?limit=1&minMembers={n}\<close>. A URL is the base URL with a path.
\<close>

datatype path =
    ClanPath string
  | PlayerPath string
  | CurrentWarPath string
  | ProbePath nat

record url =
  base :: string
  path :: path

text \<open>
  The network: the outcome of \<^verbatim>\<open>fetch(url, {headers, timeout})\<close> for a URL, an
  \<^verbatim>\<open>Authorization\<close> header and a timeout.
\<close>

type_synonym network = "url \<Rightarrow> string \<Rightarrow> int \<Rightarrow> outcome"

datatype js_error = TypeError

text \<open>
  \<^verbatim>\<open>Number(x)\<close> is kept symbolic: the value is named by the argument of the conversion,
  \<open>None\<close> being \<^verbatim>\<open>undefined\<close>.
\<close>

datatype js_number = Number "string option"

text \<open>\<^verbatim>\<open>s.split('=')\<close>.\<close>

fun split_eq :: "string \<Rightarrow> string list" where
  "split_eq [] = [[]]"
| "split_eq (c # cs) =
     (if c = CHR ''='' then [] # split_eq cs
      else (case split_eq cs of [] \<Rightarrow> [[c]] | p # ps \<Rightarrow> (c # p) # ps))"

text \<open>Array indexing: out of range is \<^verbatim>\<open>undefined\<close>.\<close>

definition js_index :: "'a list \<Rightarrow> nat \<Rightarrow> 'a option" where
  "js_index xs i = (if i < length xs then Some (xs ! i) else None)"

text \<open>A value inside a template string: \<^verbatim>\<open>undefined\<close> prints as its name.\<close>

definition template :: "string option \<Rightarrow> string" where
  "template v = (case v of None \<Rightarrow> ''undefined'' | Some s \<Rightarrow> s)"

text \<open>
  The result object: the two sentinels \<^verbatim>\<open>{ ok, status }\<close>, or the parsed body after
  \<^verbatim>\<open>Object.assign(parsed, { maxAge, status, ok })\<close>.
\<close>

datatype fetch_result =
    Sentinel (ok: bool) (status: int)
  | Augmented (parsed: json) (maxAge: js_number) (status: int) (ok: bool)

text \<open>
  \<open>fetchURL\<close>. Both awaited promises have a \<^verbatim>\<open>.catch(() => null)\<close>; the header
  parse has none, and calling \<^verbatim>\<open>.split\<close> on \<^verbatim>\<open>null\<close> throws a TypeError.
\<close>

definition fetchURL :: "network \<Rightarrow> url \<Rightarrow> string option \<Rightarrow> int \<Rightarrow> js_error + fetch_result" where
  "fetchURL net u token tmo =
     (case net u (''Bearer '' @ template token) tmo of
        TransportFailure \<Rightarrow> Inr (Sentinel False 504)
      | Responded res \<Rightarrow>
          (case res_json res of
             None \<Rightarrow> Inr (Sentinel False (res_status res))
           | Some body \<Rightarrow>
               if \<not> truthy body then Inr (Sentinel False (res_status res))
               else
                 (case cache_control res of
                    None \<Rightarrow> Inl TypeError
                  | Some h \<Rightarrow>
                      Inr (Augmented body (Number (js_index (split_eq h) 1))
                             (res_status res) (res_status res = 200)))))"

section \<open>The watch set\<close>

text \<open>
  Modelled from the spec: the \<^verbatim>\<open>Store\<close> class (imported from \<^verbatim>\<open>./Store\<close>, not among
  the sources). The spec describes an insertion-ordered mapping from tag to snapshot with
  \<^verbatim>\<open>has\<close>, \<^verbatim>\<open>set\<close>, \<^verbatim>\<open>delete\<close>, \<^verbatim>\<open>clear\<close> and a lazy \<^verbatim>\<open>keys()\<close> that skips
  entries removed while it runs. It is modelled as an ECMAScript \<^verbatim>\<open>Map\<close>: a list of
  slots in insertion order; removing an entry blanks its slot, a new key takes a new slot
  at the end, and an iterator is an index into the list.
\<close>

type_synonym store = "(string \<times> json) option list"

definition st_entries :: "store \<Rightarrow> (string \<times> json) list" where
  "st_entries es = List.map_filter id es"

definition st_keys :: "store \<Rightarrow> string list" where
  "st_keys es = map fst (st_entries es)"

definition st_has :: "string \<Rightarrow> store \<Rightarrow> bool" where
  "st_has k es = (k \<in> set (st_keys es))"

definition st_get :: "string \<Rightarrow> store \<Rightarrow> json option" where
  "st_get k es = map_of (st_entries es) k"

definition st_set :: "string \<Rightarrow> json \<Rightarrow> store \<Rightarrow> store" where
  "st_set k v es =
     (if st_has k es
      then map (\<lambda>e. case e of None \<Rightarrow> None
                     | Some (k', v') \<Rightarrow> if k' = k then Some (k, v) else Some (k', v')) es
      else es @ [Some (k, v)])"

definition st_delete :: "string \<Rightarrow> store \<Rightarrow> store" where
  "st_delete k es =
     map (\<lambda>e. case e of None \<Rightarrow> None
               | Some (k', v') \<Rightarrow> if k' = k then None else Some (k', v')) es"

definition st_clear :: "store \<Rightarrow> store" where
  "st_clear es = map (\<lambda>e. None) es"

text \<open>
  One step of the key iterator: from slot \<open>i\<close> on, the first slot that still holds an
  entry, with the index after it; \<open>None\<close> when the iterator is done.
\<close>

fun first_live :: "(string \<times> json) option list \<Rightarrow> nat \<Rightarrow> (string \<times> nat) option" where
  "first_live [] i = None"
| "first_live (None # es) i = first_live es (Suc i)"
| "first_live (Some (k, v) # es) i = Some (k, Suc i)"

definition st_next :: "store \<Rightarrow> nat \<Rightarrow> (string \<times> nat) option" where
  "st_next es i = first_live (drop i es) i"

section \<open>The engine (class Events)\<close>

text \<open>
  Modelled from the spec: the \<^verbatim>\<open>Throttler\<close> class (imported from
  \<^verbatim>\<open>../utils/Throttler\<close>, not among the sources). The spec gives it a pacing contract
  only and no error at construction; it is modelled as the rate it was constructed with.
\<close>

datatype throttler = Throttler int

text \<open>\<^verbatim>\<open>emit(name, ...args)\<close> on the event emitter the class extends.\<close>

datatype event = Emit string "json list"

text \<open>
  The fields of the class. The admission queue (\<^verbatim>\<open>AsyncQueue\<close>) orders the requests in
  time and holds no data that the operations below read. Two fields are logs kept for the
  statements: \<open>emitted\<close>, the events emitted so far, and \<open>requested\<close>, the requests
  dispatched so far with the credential each one used.
\<close>

record events =
  clans :: store
  players :: store
  wars :: store
  rateLimit :: int
  refreshRate :: int
  tokens :: "string list"
  baseUrl :: string
  timeout :: int
  throttler :: throttler
  activeToken :: nat
  isInMaintenance :: bool
  initialized :: bool
  loopBreak_player :: bool
  loopBreak_clan :: bool
  loopBreak_war :: bool
  emitted :: "event list"
  requested :: "(path \<times> string option) list"

record EventsOption =
  opt_tokens :: "string list"
  opt_baseUrl :: "string option"
  opt_timeout :: "int option"
  opt_rateLimit :: "int option"
  opt_refreshRate :: "int option"

text \<open>\<^verbatim>\<open>x || d\<close> on an optional number and on an optional string.\<close>

definition num_or :: "int option \<Rightarrow> int \<Rightarrow> int" where
  "num_or x d = (case x of None \<Rightarrow> d | Some n \<Rightarrow> if n = 0 then d else n)"

definition str_or :: "string option \<Rightarrow> string \<Rightarrow> string" where
  "str_or x d = (case x of None \<Rightarrow> d | Some s \<Rightarrow> if s = [] then d else s)"

text \<open>The constructor. It has no statement that throws.\<close>

definition Events_constructor :: "EventsOption \<Rightarrow> js_error + events" where
  "Events_constructor options =
     (let rl = num_or (opt_rateLimit options) 10 in
      Inr \<lparr> clans = [], players = [], wars = [],
            rateLimit = rl,
            refreshRate = num_or (opt_refreshRate options) (2 * 60 * 1000),
            tokens = opt_tokens options,
            baseUrl = str_or (opt_baseUrl options) ''https://api.clashofclans.com/v1'',
            timeout = num_or (opt_timeout options) 0,
            throttler = Throttler (rl * int (length (opt_tokens options))),
            activeToken = 0,
            isInMaintenance = False,
            initialized = False,
            loopBreak_player = False, loopBreak_clan = False, loopBreak_war = False,
            emitted = [], requested = [] \<rparr>)"

text \<open>The getter \<^verbatim>\<open>token\<close>: the credential under the cursor, then the cursor moves on.\<close>

definition token :: "events \<Rightarrow> string option \<times> events" where
  "token s =
     (let tok = js_index (tokens s) (activeToken s) in
      (tok, s\<lparr>activeToken :=
                 (if activeToken s + 1 \<ge> length (tokens s) then 0 else activeToken s + 1)\<rparr>))"

text \<open>\<open>n\<close> selections in a row.\<close>

fun selections :: "nat \<Rightarrow> events \<Rightarrow> string option list \<times> events" where
  "selections 0 s = ([], s)"
| "selections (Suc n) s =
     (case token s of (tok, s1) \<Rightarrow>
        (case selections n s1 of (toks, s2) \<Rightarrow> (tok # toks, s2)))"

subsection \<open>The public operations on the watch sets\<close>

text \<open>
  The three categories have the same code, once for each of \<open>clans\<close>, \<open>players\<close> and
  \<open>wars\<close>; the model takes the category as an argument.
\<close>

datatype category = Clan | Player | War

fun store_of :: "category \<Rightarrow> events \<Rightarrow> store" where
  "store_of Clan s = clans s"
| "store_of Player s = players s"
| "store_of War s = wars s"

fun map_store :: "category \<Rightarrow> (store \<Rightarrow> store) \<Rightarrow> events \<Rightarrow> events" where
  "map_store Clan f s = s\<lparr>clans := f (clans s)\<rparr>"
| "map_store Player f s = s\<lparr>players := f (players s)\<rparr>"
| "map_store War f s = s\<lparr>wars := f (wars s)\<rparr>"

fun loopBreak :: "category \<Rightarrow> events \<Rightarrow> bool" where
  "loopBreak Clan s = loopBreak_clan s"
| "loopBreak Player s = loopBreak_player s"
| "loopBreak War s = loopBreak_war s"

fun set_loopBreak :: "category \<Rightarrow> bool \<Rightarrow> events \<Rightarrow> events" where
  "set_loopBreak Clan b s = s\<lparr>loopBreak_clan := b\<rparr>"
| "set_loopBreak Player b s = s\<lparr>loopBreak_player := b\<rparr>"
| "set_loopBreak War b s = s\<lparr>loopBreak_war := b\<rparr>"

text \<open>The argument \<^verbatim>\<open>tags: string | string[]\<close> and \<^verbatim>\<open>Array.isArray(tags) ? tags : [tags]\<close>.\<close>

datatype tags_arg = One string | Many "string list"

fun as_list :: "tags_arg \<Rightarrow> string list" where
  "as_list (One t) = [t]"
| "as_list (Many ts) = ts"

text \<open>The body of the \<^verbatim>\<open>forEach\<close> in \<^verbatim>\<open>add*\<close> and in \<^verbatim>\<open>remove*\<close>.\<close>

definition add_one :: "category \<Rightarrow> string \<Rightarrow> events \<Rightarrow> events" where
  "add_one cat msg s =
     (case validateTag msg False of
        None \<Rightarrow> s
      | Some tag \<Rightarrow>
          if \<not> st_has tag (store_of cat s) then map_store cat (st_set tag (JObj [])) s else s)"

definition remove_one :: "category \<Rightarrow> string \<Rightarrow> events \<Rightarrow> events" where
  "remove_one cat msg s =
     (case validateTag msg False of
        None \<Rightarrow> s
      | Some tag \<Rightarrow>
          if st_has tag (store_of cat s) then map_store cat (st_delete tag) s else s)"

definition addTags :: "category \<Rightarrow> tags_arg \<Rightarrow> events \<Rightarrow> events" where
  "addTags cat tags s = fold (add_one cat) (as_list tags) s"

definition removeTags :: "category \<Rightarrow> tags_arg \<Rightarrow> events \<Rightarrow> events" where
  "removeTags cat tags s = fold (remove_one cat) (as_list tags) s"

definition clearTags :: "category \<Rightarrow> events \<Rightarrow> events" where
  "clearTags cat s = map_store cat st_clear (set_loopBreak cat True s)"

definition addPlayers :: "tags_arg \<Rightarrow> events \<Rightarrow> events" where
  "addPlayers = addTags Player"

definition removePlayers :: "tags_arg \<Rightarrow> events \<Rightarrow> events" where
  "removePlayers = removeTags Player"

definition clearPlayers :: "events \<Rightarrow> events" where
  "clearPlayers = clearTags Player"

definition addClans :: "tags_arg \<Rightarrow> events \<Rightarrow> events" where
  "addClans = addTags Clan"

definition removeClans :: "tags_arg \<Rightarrow> events \<Rightarrow> events" where
  "removeClans = removeTags Clan"

definition clearClans :: "events \<Rightarrow> events" where
  "clearClans = clearTags Clan"

definition addWars :: "tags_arg \<Rightarrow> events \<Rightarrow> events" where
  "addWars = addTags War"

definition removeWars :: "tags_arg \<Rightarrow> events \<Rightarrow> events" where
  "removeWars = removeTags War"

definition clearWars :: "events \<Rightarrow> events" where
  "clearWars = clearTags War"

subsection \<open>Dispatching one request\<close>

text \<open>
  A sweep is suspended while a request is in flight, and the host program may call the
  public operations in the meantime. A \<open>turn\<close> is what the surroundings supply for one
  awaited request: the behaviour of the network, and the public operations that are called
  before the request settles, in their order.
\<close>

datatype api_call =
    Add category tags_arg
  | Remove category tags_arg
  | Clear category

fun api :: "api_call \<Rightarrow> events \<Rightarrow> events" where
  "api (Add cat tags) s = addTags cat tags s"
| "api (Remove cat tags) s = removeTags cat tags s"
| "api (Clear cat) s = clearTags cat s"

record turn =
  respond :: network
  during :: "api_call list"

text \<open>
  The private method \<^verbatim>\<open>fetch(path)\<close>: wait for admission, select the credential, call
  \<open>fetchURL\<close>, and in the \<^verbatim>\<open>finally\<close> block throttle and release the queue. An error
  of \<open>fetchURL\<close> passes through the \<^verbatim>\<open>finally\<close> block to the caller.
\<close>

definition dispatch :: "turn \<Rightarrow> path \<Rightarrow> events \<Rightarrow> events \<times> (js_error + fetch_result)" where
  "dispatch t p s =
     (case token s of (tok, s1) \<Rightarrow>
        (let r = fetchURL (respond t) \<lparr>base = baseUrl s1, path = p\<rparr> tok (timeout s1);
             s2 = s1\<lparr>requested := requested s1 @ [(p, tok)]\<rparr>
         in (fold api (during t) s2, r)))"

subsection \<open>The update handlers\<close>

text \<open>
  Modelled from the spec: \<^verbatim>\<open>handleClanUpdate\<close>, \<^verbatim>\<open>handlePlayerUpdate\<close> and
  \<^verbatim>\<open>handleWarUpdate\<close> (imported from \<^verbatim>\<open>../utils/updateHandler\<close>, not among the
  sources). By the spec a handler compares the fresh result with the stored snapshot,
  emits events and writes the snapshot back into the watch set of its category. It is a
  parameter of the model: from the watch set it reads and the result it is given, the
  operations it performs on that watch set and the events it emits.
\<close>

datatype store_op = SetOp string json | DeleteOp string | ClearOp

fun st_apply :: "store_op \<Rightarrow> store \<Rightarrow> store" where
  "st_apply (SetOp k v) es = st_set k v es"
| "st_apply (DeleteOp k) es = st_delete k es"
| "st_apply ClearOp es = st_clear es"

type_synonym handler = "store \<Rightarrow> fetch_result \<Rightarrow> store_op list \<times> event list"

type_synonym tag_handler = "string \<Rightarrow> store \<Rightarrow> fetch_result \<Rightarrow> store_op list \<times> event list"

definition run_handler :: "category \<Rightarrow> tag_handler \<Rightarrow> string \<Rightarrow> fetch_result \<Rightarrow> events \<Rightarrow> events" where
  "run_handler cat h tag data s =
     (case h tag (store_of cat s) data of (ops, evs) \<Rightarrow>
        (map_store cat (fold st_apply ops) s)\<lparr>emitted := emitted s @ evs\<rparr>)"

subsection \<open>The sweep loops\<close>

fun path_of :: "category \<Rightarrow> string \<Rightarrow> path" where
  "path_of Clan tag = ClanPath tag"
| "path_of Player tag = PlayerPath tag"
| "path_of War tag = CurrentWarPath tag"

text \<open>
  How a call of an \<^verbatim>\<open>async\<close> loop method ends: it returned before reaching
  \<^verbatim>\<open>setTimeout\<close>; it called \<^verbatim>\<open>setTimeout\<close> with a delay; its promise rejected with an
  error; or it is still suspended at a request for which no turn has been supplied.
\<close>

datatype pass_end = Returned | Scheduled int | Rejected js_error | Awaiting

text \<open>
  The \<^verbatim>\<open>for (const tag of store.keys())\<close> loop, from iterator position \<open>pos\<close>. Each request
  takes the next turn.
\<close>

fun sweep_loop :: "category \<Rightarrow> tag_handler \<Rightarrow> turn list \<Rightarrow> nat \<Rightarrow> events \<Rightarrow> events \<times> pass_end option" where
  "sweep_loop cat h env pos s =
     (case st_next (store_of cat s) pos of
        None \<Rightarrow> (s, None)
      | Some (tag, pos') \<Rightarrow>
          if loopBreak cat s then (s, None)
          else
            (case env of
               [] \<Rightarrow> (s, Some Awaiting)
             | t # env' \<Rightarrow>
                 (case dispatch t (path_of cat tag) s of
                    (s1, Inl e) \<Rightarrow> (s1, Some (Rejected e))
                  | (s1, Inr data) \<Rightarrow> sweep_loop cat h env' pos' (run_handler cat h tag data s1))))"

text \<open>
  One pass. \<open>startTime\<close> and \<open>endTime\<close> are the two readings of \<^verbatim>\<open>Date.now()\<close>.
\<close>

definition sweep :: "category \<Rightarrow> tag_handler \<Rightarrow> int \<Rightarrow> int \<Rightarrow> turn list \<Rightarrow> events \<Rightarrow> events \<times> pass_end" where
  "sweep cat h startTime endTime env s =
     (if isInMaintenance s then (s, Returned)
      else
        (case sweep_loop cat h env 0 s of
           (s1, Some e) \<Rightarrow> (s1, e)
         | (s1, None) \<Rightarrow>
             (let s2 = (if loopBreak cat s1
                        then set_loopBreak cat False (map_store cat st_clear s1)
                        else s1);
                  timeTaken = endTime - startTime;
                  waitFor = (if timeTaken \<ge> refreshRate s2 then 0 else refreshRate s2 - timeTaken)
              in (s2, Scheduled waitFor))))"

definition initClanEvents :: "handler \<Rightarrow> int \<Rightarrow> int \<Rightarrow> turn list \<Rightarrow> events \<Rightarrow> events \<times> pass_end" where
  "initClanEvents handleClanUpdate = sweep Clan (\<lambda>tag. handleClanUpdate)"

definition initPlayerEvents :: "handler \<Rightarrow> int \<Rightarrow> int \<Rightarrow> turn list \<Rightarrow> events \<Rightarrow> events \<times> pass_end" where
  "initPlayerEvents handlePlayerUpdate = sweep Player (\<lambda>tag. handlePlayerUpdate)"

definition initWarEvents :: "tag_handler \<Rightarrow> int \<Rightarrow> int \<Rightarrow> turn list \<Rightarrow> events \<Rightarrow> events \<times> pass_end" where
  "initWarEvents handleWarUpdate = sweep War handleWarUpdate"

text \<open>
  A loop over time: a further pass runs only when the pass before it called
  \<^verbatim>\<open>setTimeout\<close>. Each pass is given its two clock readings and its turns; the result
  is the state and the ends of the passes that ran.
\<close>

fun sweeps :: "category \<Rightarrow> tag_handler \<Rightarrow> (int \<times> int \<times> turn list) list \<Rightarrow> events \<Rightarrow> events \<times> pass_end list" where
  "sweeps cat h [] s = (s, [])"
| "sweeps cat h ((t0, t1, env) # rest) s =
     (case sweep cat h t0 t1 env s of
        (s1, Scheduled w) \<Rightarrow> (case sweeps cat h rest s1 of (s2, es) \<Rightarrow> (s2, Scheduled w # es))
      | (s1, e) \<Rightarrow> (s1, [e]))"

subsection \<open>The maintenance probe\<close>

text \<open>
  \<open>checkMaintenace\<close>; \<open>rnd\<close> is the value of \<^verbatim>\<open>Math.floor(Math.random() * 40)\<close>.
\<close>

definition checkMaintenace :: "nat \<Rightarrow> turn \<Rightarrow> events \<Rightarrow> events \<times> pass_end" where
  "checkMaintenace rnd t s =
     (case dispatch t (ProbePath (rnd + 10)) s of
        (s1, Inl e) \<Rightarrow> (s1, Rejected e)
      | (s1, Inr data) \<Rightarrow>
          (let s2 =
             (if status data = 503 \<and> \<not> isInMaintenance s1
              then s1\<lparr>isInMaintenance := True,
                      emitted := emitted s1 @ [Emit ''maintenanceStart'' []]\<rparr>
              else if status data = 200 \<and> isInMaintenance s1
              then s1\<lparr>isInMaintenance := False,
                      emitted := emitted s1 @ [Emit ''maintenanceEnd'' []]\<rparr>
              else s1)
           in (s2, Scheduled 30000)))"

text \<open>The probe loop over time, as \<open>sweeps\<close>.\<close>

fun probes :: "(nat \<times> turn) list \<Rightarrow> events \<Rightarrow> events \<times> pass_end list" where
  "probes [] s = (s, [])"
| "probes ((rnd, t) # rest) s =
     (case checkMaintenace rnd t s of
        (s1, Scheduled w) \<Rightarrow> (case probes rest s1 of (s2, es) \<Rightarrow> (s2, Scheduled w # es))
      | (s1, e) \<Rightarrow> (s1, [e]))"

subsection \<open>Starting the loops\<close>

datatype loop = WarLoop | ClanLoop | MaintenanceLoop | PlayerLoop

text \<open>\<open>init\<close>: the loops whose first call it makes, none on a second call.\<close>

definition init :: "events \<Rightarrow> events \<times> loop list" where
  "init s =
     (if initialized s then (s, [])
      else (s\<lparr>initialized := True\<rparr>, [WarLoop, ClanLoop, MaintenanceLoop, PlayerLoop]))"

declare sweep_loop.simps [simp del]

section \<open>Notions used in the statements\<close>

text \<open>The settings of an engine, which no operation of a running engine assigns.\<close>

definition settings :: "events \<Rightarrow> int \<times> int \<times> string list \<times> string \<times> int" where
  "settings s = (refreshRate s, rateLimit s, tokens s, baseUrl s, timeout s)"

text \<open>
  A list of maintenance events alternates, from the value \<open>b\<close> of the maintenance flag:
  an end when the flag is set, a start when it is not, and so on from the flipped flag.
\<close>

fun alternates :: "bool \<Rightarrow> event list \<Rightarrow> bool" where
  "alternates b [] = True"
| "alternates b (e # es) =
     (e = (if b then Emit ''maintenanceEnd'' [] else Emit ''maintenanceStart'' [])
      \<and> alternates (\<not> b) es)"

text \<open>The keys of a watch set are normalised tags.\<close>

definition normalised :: "store \<Rightarrow> bool" where
  "normalised es = list_all (\<lambda>k. validateTag k False = Some k) (st_keys es)"

text \<open>No watch set of the engine holds a key twice.\<close>

definition no_duplicates :: "events \<Rightarrow> bool" where
  "no_duplicates s =
     (distinct (st_keys (clans s)) \<and> distinct (st_keys (players s)) \<and> distinct (st_keys (wars s)))"

section \<open>Inputs for the examples\<close>

text \<open>An engine with one credential that watches one clan.\<close>

definition one_clan :: events where
  "one_clan =
     \<lparr> clans = [Some (''#2PP'', JObj [])], players = [], wars = [],
       rateLimit = 10, refreshRate = 1000, tokens = [''A''],
       baseUrl = ''https://api.clashofclans.com/v1'', timeout = 0,
       throttler = Throttler 10, activeToken = 0, isInMaintenance = False,
       initialized = True, loopBreak_player = False, loopBreak_clan = False,
       loopBreak_war = False, emitted = [], requested = [] \<rparr>"

text \<open>The engine of \<open>one_clan\<close> after \<^verbatim>\<open>addClans('#8QU8J9LP')\<close>.\<close>

definition two_clans :: events where
  "two_clans = addClans (One ''#8QU8J9LP'') one_clan"

text \<open>Turns in which the network answers with a status and a body, and nothing else happens.\<close>

definition answer :: "int \<Rightarrow> turn" where
  "answer st =
     \<lparr> respond = (\<lambda>u a t. Responded \<lparr>res_status = st, res_json = Some (JObj []),
                                        cache_control = Some ''max-age=600''\<rparr>),
       during = [] \<rparr>"

text \<open>The same answer, while the host program calls \<^verbatim>\<open>clearClans()\<close>.\<close>

definition answer_cleared :: "int \<Rightarrow> turn" where
  "answer_cleared st = (answer st)\<lparr>during := [Clear Clan]\<rparr>"

text \<open>A handler that stores the status of the result under the tag and emits nothing.\<close>

definition keep_status :: tag_handler where
  "keep_status tag st data = ([SetOp tag (JNum (status data))], [])"

section \<open>Properties of tag validation\<close>

lemma tag_char_cases:
  "tag_char c \<Longrightarrow>
     c = CHR ''0'' \<or> c = CHR ''2'' \<or> c = CHR ''8'' \<or> c = CHR ''9'' \<or> c = CHR ''P''
   \<or> c = CHR ''Y'' \<or> c = CHR ''L'' \<or> c = CHR ''Q'' \<or> c = CHR ''G'' \<or> c = CHR ''R''
   \<or> c = CHR ''J'' \<or> c = CHR ''C'' \<or> c = CHR ''U'' \<or> c = CHR ''V''"
  by (simp add: tag_char_def)

lemma tag_char_upper: "tag_char c \<Longrightarrow> upper_char c = c"
  by (drule tag_char_cases, elim disjE) (simp_all add: upper_char_def)

lemma tag_char_not_O: "tag_char c \<Longrightarrow> c \<noteq> CHR ''O''"
  by (drule tag_char_cases, elim disjE) simp_all

lemma tag_char_not_hash: "tag_char c \<Longrightarrow> c \<noteq> CHR ''#''"
  by (drule tag_char_cases, elim disjE) simp_all

lemma tagRegex_exec_shape:
  "tagRegex_exec s = Some m \<Longrightarrow> 3 \<le> length m \<and> length m \<le> 9 \<and> (\<forall>c \<in> set m. tag_char c)"
proof (induction s)
  case Nil
  then show ?case by simp
next
  case (Cons c cs)
  let ?m = "takeWhile tag_char (take 9 (c # cs))"
  show ?case
  proof (cases "3 \<le> length ?m")
    case True
    with Cons.prems have m: "m = ?m" by (simp add: Let_def)
    have "length ?m \<le> length (take 9 (c # cs))" by (rule length_takeWhile_le)
    also have "\<dots> \<le> 9" by (simp only: length_take min.cobounded2)
    finally have le: "length ?m \<le> 9" .
    have "\<forall>x \<in> set ?m. tag_char x" by (blast dest: set_takeWhileD)
    with True le have "3 \<le> length ?m \<and> length ?m \<le> 9 \<and> (\<forall>x \<in> set ?m. tag_char x)"
      by blast
    then show ?thesis unfolding m .
  next
    case False
    with Cons.prems have "tagRegex_exec cs = Some m" by (simp add: Let_def)
    then show ?thesis by (rule Cons.IH)
  qed
qed

lemma tagRegex_exec_whole:
  assumes "3 \<le> length m" "length m \<le> 9" "\<forall>c \<in> set m. tag_char c"
  shows "tagRegex_exec m = Some m"
proof (cases m)
  case Nil
  with assms show ?thesis by simp
next
  case (Cons c cs)
  have "take 9 m = m" using assms(2) by simp
  moreover have "takeWhile tag_char m = m" using assms(3) by (simp add: takeWhile_eq_all_conv)
  ultimately have "takeWhile tag_char (take 9 (c # cs)) = m" using Cons by simp
  then show ?thesis using assms(1) Cons by (simp add: Let_def)
qed

lemma normalise_fixed:
  assumes "\<forall>c \<in> set m. tag_char c"
  shows "remove_hash (replace_O (toUpperCase (CHR ''#'' # m))) = m"
proof -
  have "map upper_char m = m"
    using assms by (intro map_idI) (simp add: tag_char_upper)
  moreover have "upper_char (CHR ''#'') = CHR ''#''" by (simp add: upper_char_def)
  ultimately have u: "toUpperCase (CHR ''#'' # m) = CHR ''#'' # m"
    by (simp add: toUpperCase_def)
  have "map (\<lambda>c. if c = CHR ''O'' then CHR ''0'' else c) m = m"
    using assms by (intro map_idI) (auto dest: tag_char_not_O)
  then have r: "replace_O (CHR ''#'' # m) = CHR ''#'' # m"
    by (simp add: replace_O_def)
  show ?thesis by (simp add: u r remove_hash_def)
qed

lemma validateTag_shape:
  assumes "validateTag s False = Some t"
  shows "\<exists>m. t = CHR ''#'' # m \<and> 3 \<le> length m \<and> length m \<le> 9 \<and> (\<forall>c \<in> set m. tag_char c)"
  using assms
  by (auto simp: validateTag_def Let_def split: if_splits option.splits
           dest: tagRegex_exec_shape)

lemma validateTag_normal:
  assumes "3 \<le> length m" "length m \<le> 9" "\<forall>c \<in> set m. tag_char c"
  shows "validateTag (CHR ''#'' # m) False = Some (CHR ''#'' # m)"
  using assms by (simp add: validateTag_def normalise_fixed tagRegex_exec_whole)

lemma validateTag_twice:
  "validateTag s False = Some t \<Longrightarrow> validateTag t False = Some t"
  using validateTag_shape validateTag_normal by blast

text \<open>
  C10. Normalisation is idempotent: when \<open>validateTag\<close> (without encoding) accepts a string
  and returns the tag \<open>t\<close>, validating \<open>t\<close> returns \<open>t\<close> again; and every accepted result is
  a hash sign followed by three to nine characters of the class \<open>0289PYLQGRJCUV\<close>.
\<close>

theorem validateTag_idempotent:
  assumes "validateTag s False = Some t"
  shows "validateTag t False = Some t
       \<and> (\<exists>m. t = CHR ''#'' # m \<and> 3 \<le> length m \<and> length m \<le> 9
              \<and> set m \<subseteq> set ''0289PYLQGRJCUV'')"
proof -
  from validateTag_shape [OF assms] obtain m where
    m: "t = CHR ''#'' # m" "3 \<le> length m" "length m \<le> 9" "\<forall>c \<in> set m. tag_char c"
    by blast
  have "validateTag t False = Some t"
    using m validateTag_normal by simp
  moreover have "set m \<subseteq> set ''0289PYLQGRJCUV''"
    using m(4) unfolding tag_char_def by blast
  ultimately show ?thesis using m by blast
qed

theorem validateTag_idempotent_witness:
  "validateTag ''#8qu8j9lpo'' False = Some ''#8QU8J9LP0''
   \<and> validateTag ''#8QU8J9LP0'' False = Some ''#8QU8J9LP0''"
proof -
  have h: "validateTag ''#8qu8j9lpo'' False = Some ''#8QU8J9LP0''"
    by code_simp
  show ?thesis using h validateTag_idempotent [OF h] by simp
qed


section \<open>Properties of the fetch primitive\<close>

lemma fetchURL_transport_failure:
  "net u (''Bearer '' @ template tok) tmo = TransportFailure \<Longrightarrow>
     fetchURL net u tok tmo = Inr (Sentinel False 504)"
  by (simp add: fetchURL_def)

lemma fetchURL_unparseable:
  "net u (''Bearer '' @ template tok) tmo = Responded res \<Longrightarrow> res_json res = None \<Longrightarrow>
     fetchURL net u tok tmo = Inr (Sentinel False (res_status res))"
  by (simp add: fetchURL_def)

lemma fetchURL_success:
  "net u (''Bearer '' @ template tok) tmo = Responded res \<Longrightarrow> res_json res = Some body \<Longrightarrow>
   truthy body \<Longrightarrow> cache_control res = Some h \<Longrightarrow>
     fetchURL net u tok tmo =
       Inr (Augmented body (Number (js_index (split_eq h) 1)) (res_status res) (res_status res = 200))"
  by (simp add: fetchURL_def)

lemma fetchURL_throws_iff:
  "(fetchURL net u tok tmo = Inl e) =
     (\<exists>res body. net u (''Bearer '' @ template tok) tmo = Responded res
        \<and> res_json res = Some body \<and> truthy body \<and> cache_control res = None)"
  by (cases e) (auto simp: fetchURL_def split: outcome.splits option.splits)

text \<open>
  C3. The claim is that \<open>fetchURL\<close> never throws, whatever the response and its headers.
  At a response with status 200, the body \<^verbatim>\<open>{}\<close> and no \<^verbatim>\<open>cache-control\<close> header the
  code throws a TypeError: the header parse is outside the two \<^verbatim>\<open>catch\<close> handlers.
\<close>

theorem fetchURL_throws_without_cache_control:
  "fetchURL (\<lambda>u a t. Responded \<lparr>res_status = 200, res_json = Some (JObj []), cache_control = None\<rparr>)
     \<lparr>base = ''https://api.clashofclans.com/v1'', path = ClanPath ''#2PP''\<rparr> (Some ''A'') 0
   = Inl TypeError"
  by (simp add: fetchURL_def)

section \<open>Properties of the constructor\<close>

text \<open>
  C2, as the claim states it: construction with an empty credential pool fails. It does
  not; the constructor returns an engine with no credential.
\<close>

theorem Events_constructor_empty_pool:
  "Events_constructor \<lparr>opt_tokens = [], opt_baseUrl = None, opt_timeout = None,
                       opt_rateLimit = None, opt_refreshRate = None\<rparr>
   = Inr \<lparr> clans = [], players = [], wars = [], rateLimit = 10, refreshRate = 120000,
           tokens = [], baseUrl = ''https://api.clashofclans.com/v1'', timeout = 0,
           throttler = Throttler 0, activeToken = 0, isInMaintenance = False,
           initialized = False, loopBreak_player = False, loopBreak_clan = False,
           loopBreak_war = False, emitted = [], requested = [] \<rparr>"
  by (simp add: Events_constructor_def num_or_def str_or_def)

text \<open>
  C2, amended. Construction never fails: the constructor checks nothing, and for every
  options value, with an empty list of tokens as well as with one token or more, it
  returns an engine that holds the pool as given, the cursor at 0, and a throttle built
  for the rate limit times the size of the pool.
\<close>

theorem Events_constructor_total:
  "\<exists>s. Events_constructor options = Inr s
       \<and> tokens s = opt_tokens options
       \<and> activeToken s = 0
       \<and> throttler s = Throttler (rateLimit s * int (length (opt_tokens options)))
       \<and> clans s = [] \<and> players s = [] \<and> wars s = []
       \<and> \<not> isInMaintenance s \<and> \<not> initialized s"
  by (simp add: Events_constructor_def Let_def)

theorem Events_constructor_total_witness:
  "\<exists>s. Events_constructor \<lparr>opt_tokens = [''A'', ''B''], opt_baseUrl = None, opt_timeout = None,
                               opt_rateLimit = Some 10, opt_refreshRate = None\<rparr> = Inr s
       \<and> tokens s = [''A'', ''B'']
       \<and> activeToken s = 0
       \<and> throttler s = Throttler (rateLimit s * 2)
       \<and> clans s = [] \<and> players s = [] \<and> wars s = []
       \<and> \<not> isInMaintenance s \<and> \<not> initialized s"
  using Events_constructor_total
    [of "\<lparr>opt_tokens = [''A'', ''B''], opt_baseUrl = None, opt_timeout = None,
          opt_rateLimit = Some 10, opt_refreshRate = None\<rparr>"]
  by simp

section \<open>Properties of the credential cursor\<close>

lemma token_eq:
  "token s = (js_index (tokens s) (activeToken s),
              s\<lparr>activeToken := (if activeToken s + 1 \<ge> length (tokens s) then 0
                                else activeToken s + 1)\<rparr>)"
  by (simp add: token_def Let_def)

lemma token_in_range:
  assumes "activeToken s < length (tokens s)"
  shows "token s = (Some (tokens s ! activeToken s),
                    s\<lparr>activeToken := (activeToken s + 1) mod length (tokens s)\<rparr>)"
proof -
  let ?n = "length (tokens s)" and ?c = "activeToken s"
  have "(if ?c + 1 \<ge> ?n then 0 else ?c + 1) = (?c + 1) mod ?n"
  proof (cases "?c + 1 \<ge> ?n")
    case True
    with assms have "?c + 1 = ?n" by simp
    then show ?thesis by simp
  next
    case False
    then show ?thesis by simp
  qed
  then show ?thesis using assms by (simp add: token_eq js_index_def)
qed

lemma selections_from:
  assumes "activeToken s < length (tokens s)"
  shows "selections n s =
           (map (\<lambda>i. Some (tokens s ! ((activeToken s + i) mod length (tokens s)))) [0..<n],
            s\<lparr>activeToken := (activeToken s + n) mod length (tokens s)\<rparr>)"
  using assms
proof (induction n arbitrary: s)
  case 0
  then show ?case by simp
next
  case (Suc n)
  let ?N = "length (tokens s)" and ?c = "activeToken s"
  let ?s1 = "s\<lparr>activeToken := Suc ?c mod ?N\<rparr>"
  have N: "0 < ?N" using Suc.prems by (rule le_less_trans [OF le0])
  have t: "token s = (Some (tokens s ! ?c), ?s1)"
    using token_in_range [OF Suc.prems] by simp
  have r: "activeToken ?s1 < length (tokens ?s1)" using N by simp
  have idx: "(Suc ?c mod ?N + i) mod ?N = Suc (?c + i) mod ?N" for i
    by (simp add: mod_add_left_eq)
  have tail: "selections n ?s1 =
      (map (\<lambda>i. Some (tokens s ! (Suc (?c + i) mod ?N))) [0..<n],
       s\<lparr>activeToken := Suc (?c + n) mod ?N\<rparr>)"
    using Suc.IH [OF r] by (simp add: idx)
  have split: "[0..<Suc n] = 0 # map Suc [0..<n]"
    by (simp add: upt_conv_Cons map_Suc_upt del: upt_Suc)
  have here: "?c mod ?N = ?c" using Suc.prems by simp
  have "selections (Suc n) s =
      (Some (tokens s ! ?c) # map (\<lambda>i. Some (tokens s ! (Suc (?c + i) mod ?N))) [0..<n],
       s\<lparr>activeToken := Suc (?c + n) mod ?N\<rparr>)"
    by (simp add: t tail)
  also have "Some (tokens s ! ?c) # map (\<lambda>i. Some (tokens s ! (Suc (?c + i) mod ?N))) [0..<n]
      = map (\<lambda>i. Some (tokens s ! ((?c + i) mod ?N))) [0..<Suc n]"
    unfolding split by (simp add: comp_def here)
  finally show ?case by simp
qed

lemma rotate_as_map:
  assumes "c < length xs"
  shows "map (\<lambda>i. xs ! ((c + i) mod length xs)) [0..<length xs] = rotate c xs"
  by (rule nth_equalityI) (simp_all add: nth_rotate)

lemma mset_rotate_eq: "mset (rotate n xs) = mset xs"
proof -
  let ?k = "n mod length xs"
  have "mset (rotate n xs) = mset (drop ?k xs) + mset (take ?k xs)"
    by (simp add: rotate_drop_take)
  also have "\<dots> = mset (take ?k xs @ drop ?k xs)"
    by (simp only: mset_append add.commute)
  also have "\<dots> = mset xs"
    by (simp only: append_take_drop_id)
  finally show ?thesis .
qed

text \<open>
  C5. With a pool of \<open>N \<ge> 1\<close> credentials and the cursor in \<open>[0, N)\<close>, a selection returns
  the credential under the cursor and moves the cursor on by one modulo \<open>N\<close>, so that it
  stays in \<open>[0, N)\<close>; \<open>N\<close> selections in a row return the pool rotated to the cursor, which
  is each credential once, and leave the engine as it was. The cursor is one field of
  the engine: the selections of all loops go through it.
\<close>

theorem token_round_robin:
  assumes "1 \<le> length (tokens s)" and "activeToken s < length (tokens s)"
  shows "fst (token s) = Some (tokens s ! activeToken s)
       \<and> snd (token s) = s\<lparr>activeToken := (activeToken s + 1) mod length (tokens s)\<rparr>
       \<and> activeToken (snd (token s)) < length (tokens (snd (token s)))
       \<and> fst (selections (length (tokens s)) s) = map Some (rotate (activeToken s) (tokens s))
       \<and> mset (fst (selections (length (tokens s)) s)) = mset (map Some (tokens s))
       \<and> snd (selections (length (tokens s)) s) = s"
proof -
  let ?N = "length (tokens s)" and ?c = "activeToken s"
  have t: "token s = (Some (tokens s ! ?c), s\<lparr>activeToken := (?c + 1) mod ?N\<rparr>)"
    using assms(2) by (rule token_in_range)
  have sel: "selections ?N s =
      (map (\<lambda>i. Some (tokens s ! ((?c + i) mod ?N))) [0..<?N], s\<lparr>activeToken := (?c + ?N) mod ?N\<rparr>)"
    using assms(2) by (rule selections_from)
  have "map (\<lambda>i. Some (tokens s ! ((?c + i) mod ?N))) [0..<?N]
          = map Some (map (\<lambda>i. tokens s ! ((?c + i) mod ?N)) [0..<?N])"
    by (simp add: comp_def)
  also have "\<dots> = map Some (rotate ?c (tokens s))"
    using assms(2) by (simp only: rotate_as_map)
  finally have l: "fst (selections ?N s) = map Some (rotate ?c (tokens s))"
    by (simp add: sel)
  have m: "mset (fst (selections ?N s)) = mset (map Some (tokens s))"
    by (simp add: l mset_rotate_eq)
  have "(?c + ?N) mod ?N = ?c" using assms(2) by simp
  then have e: "snd (selections ?N s) = s" by (simp add: sel)
  have "0 < ?N" using assms(2) by (rule le_less_trans [OF le0])
  then have "(?c + 1) mod ?N < ?N" by (rule mod_less_divisor)
  then have r: "activeToken (snd (token s)) < length (tokens (snd (token s)))"
    by (simp add: t)
  show ?thesis using l m e r by (simp add: t)
qed

theorem token_round_robin_witness:
  "fst (selections 3 \<lparr> clans = [], players = [], wars = [], rateLimit = 10, refreshRate = 120000,
           tokens = [''A'', ''B'', ''C''], baseUrl = ''https://api.clashofclans.com/v1'',
           timeout = 0, throttler = Throttler 30, activeToken = 1, isInMaintenance = False,
           initialized = False, loopBreak_player = False, loopBreak_clan = False,
           loopBreak_war = False, emitted = [], requested = [] \<rparr>)
   = [Some ''B'', Some ''C'', Some ''A'']"
  (is "fst (selections 3 ?S) = _")
proof -
  have h1: "1 \<le> length (tokens ?S)" by simp
  have h2: "activeToken ?S < length (tokens ?S)" by simp
  have n: "length (tokens ?S) = 3" by simp
  from token_round_robin [OF h1 h2]
  have "fst (selections (length (tokens ?S)) ?S) = map Some (rotate (activeToken ?S) (tokens ?S))"
    by blast
  then have "fst (selections 3 ?S) = map Some (rotate (activeToken ?S) (tokens ?S))"
    by (simp only: n)
  also have "\<dots> = [Some ''B'', Some ''C'', Some ''A'']"
    by simp
  finally show ?thesis .
qed


section \<open>What the operations leave alone\<close>

lemma fold_preserve:
  assumes "\<And>x s. g (f x s) = g s"
  shows "g (fold f xs s) = g s"
  by (induction xs arbitrary: s) (simp_all add: assms)

lemma settings_update [simp]:
  "settings (s\<lparr>activeToken := a\<rparr>) = settings s"
  "settings (s\<lparr>requested := r\<rparr>) = settings s"
  "settings (s\<lparr>emitted := e\<rparr>) = settings s"
  "settings (s\<lparr>isInMaintenance := b\<rparr>) = settings s"
  by (simp_all add: settings_def)

lemma loopBreak_update [simp]:
  "loopBreak c (s\<lparr>activeToken := a\<rparr>) = loopBreak c s"
  "loopBreak c (s\<lparr>requested := r\<rparr>) = loopBreak c s"
  "loopBreak c (s\<lparr>emitted := e\<rparr>) = loopBreak c s"
  "loopBreak c (s\<lparr>isInMaintenance := b\<rparr>) = loopBreak c s"
  by (cases c; simp)+

lemma store_of_update [simp]:
  "store_of c (s\<lparr>activeToken := a\<rparr>) = store_of c s"
  "store_of c (s\<lparr>requested := r\<rparr>) = store_of c s"
  "store_of c (s\<lparr>emitted := e\<rparr>) = store_of c s"
  "store_of c (s\<lparr>isInMaintenance := b\<rparr>) = store_of c s"
  by (cases c; simp)+

lemma map_store_frame [simp]:
  "settings (map_store cat f s) = settings s"
  "isInMaintenance (map_store cat f s) = isInMaintenance s"
  "emitted (map_store cat f s) = emitted s"
  "requested (map_store cat f s) = requested s"
  "activeToken (map_store cat f s) = activeToken s"
  by (cases cat; simp add: settings_def)+

lemma set_loopBreak_frame [simp]:
  "settings (set_loopBreak cat b s) = settings s"
  "isInMaintenance (set_loopBreak cat b s) = isInMaintenance s"
  "emitted (set_loopBreak cat b s) = emitted s"
  "requested (set_loopBreak cat b s) = requested s"
  "activeToken (set_loopBreak cat b s) = activeToken s"
  by (cases cat; simp add: settings_def)+

lemma store_of_map_store [simp]:
  "store_of c (map_store cat f s) = (if c = cat then f (store_of c s) else store_of c s)"
  by (cases cat; cases c; simp)

lemma store_of_set_loopBreak [simp]:
  "store_of c (set_loopBreak cat b s) = store_of c s"
  by (cases cat; cases c; simp)

lemma loopBreak_map_store [simp]:
  "loopBreak c (map_store cat f s) = loopBreak c s"
  by (cases cat; cases c; simp)

lemma loopBreak_set_loopBreak [simp]:
  "loopBreak c (set_loopBreak cat b s) = (if c = cat then b else loopBreak c s)"
  by (cases cat; cases c; simp)

lemma add_one_frame [simp]:
  "settings (add_one cat msg s) = settings s"
  "isInMaintenance (add_one cat msg s) = isInMaintenance s"
  "emitted (add_one cat msg s) = emitted s"
  "requested (add_one cat msg s) = requested s"
  "activeToken (add_one cat msg s) = activeToken s"
  "loopBreak c (add_one cat msg s) = loopBreak c s"
  by (simp_all add: add_one_def split: option.splits)

lemma remove_one_frame [simp]:
  "settings (remove_one cat msg s) = settings s"
  "isInMaintenance (remove_one cat msg s) = isInMaintenance s"
  "emitted (remove_one cat msg s) = emitted s"
  "requested (remove_one cat msg s) = requested s"
  "activeToken (remove_one cat msg s) = activeToken s"
  "loopBreak c (remove_one cat msg s) = loopBreak c s"
  by (simp_all add: remove_one_def split: option.splits)

lemma addTags_frame [simp]:
  "settings (addTags cat tags s) = settings s"
  "isInMaintenance (addTags cat tags s) = isInMaintenance s"
  "emitted (addTags cat tags s) = emitted s"
  "requested (addTags cat tags s) = requested s"
  "activeToken (addTags cat tags s) = activeToken s"
  "loopBreak c (addTags cat tags s) = loopBreak c s"
  unfolding addTags_def by (rule fold_preserve, simp)+

lemma removeTags_frame [simp]:
  "settings (removeTags cat tags s) = settings s"
  "isInMaintenance (removeTags cat tags s) = isInMaintenance s"
  "emitted (removeTags cat tags s) = emitted s"
  "requested (removeTags cat tags s) = requested s"
  "activeToken (removeTags cat tags s) = activeToken s"
  "loopBreak c (removeTags cat tags s) = loopBreak c s"
  unfolding removeTags_def by (rule fold_preserve, simp)+

lemma clearTags_frame [simp]:
  "settings (clearTags cat s) = settings s"
  "isInMaintenance (clearTags cat s) = isInMaintenance s"
  "emitted (clearTags cat s) = emitted s"
  "requested (clearTags cat s) = requested s"
  "activeToken (clearTags cat s) = activeToken s"
  "loopBreak c (clearTags cat s) = (if c = cat then True else loopBreak c s)"
  by (simp_all add: clearTags_def)

lemma api_frame [simp]:
  "settings (api c s) = settings s"
  "isInMaintenance (api c s) = isInMaintenance s"
  "emitted (api c s) = emitted s"
  "requested (api c s) = requested s"
  "activeToken (api c s) = activeToken s"
  by (cases c; simp)+

lemma fold_api_frame [simp]:
  "settings (fold api cs s) = settings s"
  "isInMaintenance (fold api cs s) = isInMaintenance s"
  "emitted (fold api cs s) = emitted s"
  "requested (fold api cs s) = requested s"
  "activeToken (fold api cs s) = activeToken s"
  by (rule fold_preserve, simp)+

lemma dispatch_frame:
  assumes "dispatch t p s = (s1, r)"
  shows "settings s1 = settings s"
    and "isInMaintenance s1 = isInMaintenance s"
    and "emitted s1 = emitted s"
    and "requested s1 = requested s @ [(p, js_index (tokens s) (activeToken s))]"
  using assms by (auto simp: dispatch_def token_eq Let_def)

lemma run_handler_frame [simp]:
  "settings (run_handler cat h tag data s) = settings s"
  "isInMaintenance (run_handler cat h tag data s) = isInMaintenance s"
  "requested (run_handler cat h tag data s) = requested s"
  "loopBreak c (run_handler cat h tag data s) = loopBreak c s"
  by (simp_all add: run_handler_def split: prod.splits)

lemma sweep_loop_frame:
  "sweep_loop cat h env pos s = (s', e) \<Longrightarrow>
     settings s' = settings s \<and> isInMaintenance s' = isInMaintenance s"
proof (induction env arbitrary: pos s)
  case Nil
  then show ?case
    by (subst (asm) sweep_loop.simps) (auto split: option.splits if_splits)
next
  case (Cons t env)
  from Cons.prems show ?case
    by (subst (asm) sweep_loop.simps)
       (auto split: option.splits if_splits prod.splits sum.splits
             dest!: Cons.IH dest: dispatch_frame(1,2))
qed

lemma sweep_loop_end:
  "sweep_loop cat h env pos s = (s', Some e) \<Longrightarrow> e = Awaiting \<or> (\<exists>x. e = Rejected x)"
proof (induction env arbitrary: pos s)
  case Nil
  then show ?case
    by (subst (asm) sweep_loop.simps) (auto split: option.splits if_splits)
next
  case (Cons t env)
  from Cons.prems show ?case
    by (subst (asm) sweep_loop.simps)
       (auto split: option.splits if_splits prod.splits sum.splits dest: Cons.IH)
qed

lemma sweep_frame:
  assumes "sweep cat h t0 t1 env s = (s', e)"
  shows "settings s' = settings s" and "isInMaintenance s' = isInMaintenance s"
  using assms
  by (auto simp: sweep_def Let_def
           split: if_splits prod.splits option.splits dest: sweep_loop_frame)

section \<open>Rescheduling\<close>

lemma sweep_in_maintenance:
  "isInMaintenance s \<Longrightarrow> sweep cat h t0 t1 env s = (s, Returned)"
  by (simp add: sweep_def)

lemma sweeps_in_maintenance:
  "isInMaintenance s \<Longrightarrow> sweeps cat h (p # ps) s = (s, [Returned])"
  by (cases p) (simp add: sweep_in_maintenance)

text \<open>
  C1. The claim is that every pass ends by scheduling the next one, whatever the
  maintenance flag. An engine watches the clan \<^verbatim>\<open>#2PP\<close>; a probe is answered with status
  503 and sets the flag. The clan pass that starts next returns at its first statement:
  no request, no call of \<^verbatim>\<open>setTimeout\<close>, and the second pass for which the surroundings
  are ready never runs.
\<close>

theorem sweep_stops_in_maintenance:
  "isInMaintenance (fst (checkMaintenace 0 (answer 503) one_clan))
   \<and> sweeps Clan keep_status [(0, 10, [answer 200]), (1000, 1010, [answer 200])]
        (fst (checkMaintenace 0 (answer 503) one_clan))
     = (fst (checkMaintenace 0 (answer 503) one_clan), [Returned])"
proof -
  have m: "isInMaintenance (fst (checkMaintenace 0 (answer 503) one_clan))"
    by (simp add: checkMaintenace_def dispatch_def token_eq fetchURL_def answer_def one_clan_def
                  js_index_def template_def Let_def)
  show ?thesis using m sweeps_in_maintenance [OF m] by simp
qed

lemma sweep_loop_no_throw:
  assumes "\<forall>t \<in> set env. \<forall>u tok tmo. \<exists>d. fetchURL (respond t) u tok tmo = Inr d"
  shows "snd (sweep_loop cat h env pos s) \<noteq> Some (Rejected x)"
  using assms
proof (induction env arbitrary: pos s)
  case Nil
  show ?case
    by (subst sweep_loop.simps) (simp split: option.splits)
next
  case (Cons t env)
  have ih: "snd (sweep_loop cat h env pos' s') \<noteq> Some (Rejected x)" for pos' s'
    using Cons.prems by (intro Cons.IH) simp
  have ok: "\<exists>d. fetchURL (respond t) u tok tmo = Inr d" for u tok tmo
    using Cons.prems by simp
  have d: "snd (dispatch t p s) \<noteq> Inl e" for p e
    using ok [of "\<lparr>base = baseUrl s, path = p\<rparr>" "js_index (tokens s) (activeToken s)" "timeout s"]
    by (auto simp: dispatch_def token_eq Let_def)
  show ?case
  proof (subst sweep_loop.simps, clarsimp split: option.splits prod.splits sum.splits, intro conjI allI impI)
    fix tag pos' s1 e
    assume "dispatch t (path_of cat tag) s = (s1, Inl e)"
    then have "snd (dispatch t (path_of cat tag) s) = Inl e" by simp
    with d show "e \<noteq> x" by blast
  next
    fix tag pos' s1 data
    show "snd (sweep_loop cat h env pos' (run_handler cat h tag data s1)) \<noteq> Some (Rejected x)"
      by (rule ih)
  qed
qed

lemma sweep_end:
  "snd (sweep cat h startTime endTime env s) =
     (if isInMaintenance s then Returned
      else case snd (sweep_loop cat h env 0 s) of
             None \<Rightarrow> Scheduled (max 0 (refreshRate s - (endTime - startTime)))
           | Some e \<Rightarrow> e)"
proof (cases "isInMaintenance s")
  case True
  then show ?thesis by (simp add: sweep_def)
next
  case False
  obtain s1 e where l: "sweep_loop cat h env 0 s = (s1, e)"
    by (cases "sweep_loop cat h env 0 s")
  then have "settings s1 = settings s" by (auto dest: sweep_loop_frame)
  then have r: "refreshRate s1 = refreshRate s" by (simp add: settings_def)
  have "settings (set_loopBreak cat False (map_store cat st_clear s1)) = settings s1"
    by simp
  then have r': "refreshRate (set_loopBreak cat False (map_store cat st_clear s1)) = refreshRate s"
    using r by (simp add: settings_def)
  show ?thesis
    using False l r r' by (cases e) (simp_all add: sweep_def Let_def max_def)
qed

text \<open>
  C4. A pass ends in one of four ways. It returns at the maintenance test; it is still
  suspended at a request; it is rejected by a request that throws; or its tag loop came to
  its end, by exhaustion or by the abort flag, and then it calls \<^verbatim>\<open>setTimeout\<close> with the
  delay \<open>max 0 (refreshRate - d)\<close>, where \<open>d\<close> is the duration between its two clock
  readings. So every pass that is not stopped by the maintenance test and whose loop comes
  to its end schedules the next pass with that delay, and no pass schedules with another
  delay. The delay is zero when \<open>d\<close> is at least the refresh rate, the difference
  otherwise, and never negative. When no request throws, a pass outside maintenance is
  either still suspended or has scheduled.
\<close>

theorem sweep_wait:
  "snd (sweep cat h startTime endTime env s) =
     (if isInMaintenance s then Returned
      else case snd (sweep_loop cat h env 0 s) of
             None \<Rightarrow> Scheduled (max 0 (refreshRate s - (endTime - startTime)))
           | Some e \<Rightarrow> e)
   \<and> (snd (sweep_loop cat h env 0 s) = None
        \<or> snd (sweep_loop cat h env 0 s) = Some Awaiting
        \<or> (\<exists>x. snd (sweep_loop cat h env 0 s) = Some (Rejected x)))
   \<and> (\<not> isInMaintenance s \<and> snd (sweep_loop cat h env 0 s) = None \<longrightarrow>
        snd (sweep cat h startTime endTime env s)
          = Scheduled (max 0 (refreshRate s - (endTime - startTime))))
   \<and> (\<not> isInMaintenance s
        \<and> (\<forall>t \<in> set env. \<forall>u tok tmo. \<exists>d. fetchURL (respond t) u tok tmo = Inr d) \<longrightarrow>
        snd (sweep cat h startTime endTime env s) = Awaiting
        \<or> snd (sweep cat h startTime endTime env s)
             = Scheduled (max 0 (refreshRate s - (endTime - startTime))))
   \<and> (\<forall>s' w. sweep cat h startTime endTime env s = (s', Scheduled w) \<longrightarrow>
        w = max 0 (refreshRate s - (endTime - startTime)))
   \<and> max 0 (refreshRate s - (endTime - startTime))
        = (if endTime - startTime \<ge> refreshRate s then 0
           else refreshRate s - (endTime - startTime))
   \<and> 0 \<le> max 0 (refreshRate s - (endTime - startTime))"
proof -
  let ?l = "snd (sweep_loop cat h env 0 s)"
  let ?w = "max 0 (refreshRate s - (endTime - startTime))"
  note e = sweep_end [of cat h startTime endTime env s]
  have ends: "?l = None \<or> ?l = Some Awaiting \<or> (\<exists>x. ?l = Some (Rejected x))"
  proof (cases ?l)
    case None
    then show ?thesis by simp
  next
    case (Some x)
    then have "sweep_loop cat h env 0 s = (fst (sweep_loop cat h env 0 s), Some x)"
      by (simp add: prod_eq_iff)
    then have "x = Awaiting \<or> (\<exists>y. x = Rejected y)" by (rule sweep_loop_end)
    with Some show ?thesis by auto
  qed
  have sched: "snd (sweep cat h startTime endTime env s) = Scheduled ?w"
    if "\<not> isInMaintenance s" "?l = None"
    using that e by simp
  have quiet: "snd (sweep cat h startTime endTime env s) = Awaiting
        \<or> snd (sweep cat h startTime endTime env s) = Scheduled ?w"
    if m: "\<not> isInMaintenance s"
      and ok: "\<forall>t \<in> set env. \<forall>u tok tmo. \<exists>d. fetchURL (respond t) u tok tmo = Inr d"
  proof -
    have "?l \<noteq> Some (Rejected x)" for x
      using ok by (rule sweep_loop_no_throw)
    with ends have "?l = None \<or> ?l = Some Awaiting" by blast
    then show ?thesis using e m by auto
  qed
  have only: "w = ?w" if "sweep cat h startTime endTime env s = (s', Scheduled w)" for s' w
  proof -
    from that have sw: "snd (sweep cat h startTime endTime env s) = Scheduled w" by simp
    with e have m: "\<not> isInMaintenance s" by (auto split: if_splits)
    from ends show ?thesis
    proof (elim disjE exE)
      assume "?l = None"
      with e m sw show ?thesis by simp
    next
      assume "?l = Some Awaiting"
      with e m sw show ?thesis by simp
    next
      fix x assume "?l = Some (Rejected x)"
      with e m sw show ?thesis by simp
    qed
  qed
  have arith: "?w = (if endTime - startTime \<ge> refreshRate s then 0
                     else refreshRate s - (endTime - startTime))" "0 \<le> ?w"
    by (simp_all add: max_def)
  have p3: "\<not> isInMaintenance s \<and> ?l = None \<longrightarrow>
      snd (sweep cat h startTime endTime env s) = Scheduled ?w"
    using sched by blast
  have p4: "\<not> isInMaintenance s
      \<and> (\<forall>t \<in> set env. \<forall>u tok tmo. \<exists>d. fetchURL (respond t) u tok tmo = Inr d) \<longrightarrow>
      snd (sweep cat h startTime endTime env s) = Awaiting
      \<or> snd (sweep cat h startTime endTime env s) = Scheduled ?w"
    using quiet by blast
  have p5: "\<forall>s' w. sweep cat h startTime endTime env s = (s', Scheduled w) \<longrightarrow> w = ?w"
    using only by blast
  from e ends p3 p4 p5 arith show ?thesis
    by (intro conjI) assumption+
qed

theorem sweep_wait_witness:
  "snd (sweep Clan keep_status 0 200 [answer 200, answer 200] two_clans) = Scheduled 800
   \<and> snd (sweep Clan keep_status 0 1500 [answer 200, answer 200] two_clans) = Scheduled 0"
proof -
  let ?env = "[answer 200, answer 200]"
  let ?s1 = "two_clans\<lparr>clans := [Some (''#2PP'', JNum 200), Some (''#8QU8J9LP'', JNum 200)],
                        requested := [(ClanPath ''#2PP'', Some ''A''),
                                      (ClanPath ''#8QU8J9LP'', Some ''A'')]\<rparr>"
  have m: "\<not> isInMaintenance two_clans" by code_simp
  have "sweep_loop Clan keep_status ?env 0 two_clans = (?s1, None)" by code_simp
  then have l: "snd (sweep_loop Clan keep_status ?env 0 two_clans) = None" by simp
  have r: "refreshRate two_clans = 1000" by code_simp
  from sweep_wait [of Clan keep_status 0 200 ?env two_clans] m l
  have "snd (sweep Clan keep_status 0 200 ?env two_clans)
          = Scheduled (max 0 (refreshRate two_clans - (200 - 0)))"
    by blast
  moreover from sweep_wait [of Clan keep_status 0 1500 ?env two_clans] m l
  have "snd (sweep Clan keep_status 0 1500 ?env two_clans)
          = Scheduled (max 0 (refreshRate two_clans - (1500 - 0)))"
    by blast
  ultimately show ?thesis by (simp add: r)
qed


section \<open>The maintenance flag\<close>

lemma checkMaintenace_step:
  assumes "dispatch t (ProbePath (rnd + 10)) s = (s1, Inr data)"
  shows "checkMaintenace rnd t s =
           (if status data = 503 \<and> \<not> isInMaintenance s
            then s1\<lparr>isInMaintenance := True,
                    emitted := emitted s @ [Emit ''maintenanceStart'' []]\<rparr>
            else if status data = 200 \<and> isInMaintenance s
            then s1\<lparr>isInMaintenance := False,
                    emitted := emitted s @ [Emit ''maintenanceEnd'' []]\<rparr>
            else s1,
            Scheduled 30000)"
  using assms dispatch_frame(2,3) [OF assms]
  by (simp add: checkMaintenace_def Let_def)

lemma checkMaintenace_rejected:
  assumes "dispatch t (ProbePath (rnd + 10)) s = (s1, Inl e)"
  shows "checkMaintenace rnd t s = (s1, Rejected e)"
  using assms by (simp add: checkMaintenace_def)

lemma probes_alternate:
  "probes ps s = (s', es) \<Longrightarrow>
     \<exists>evs. emitted s' = emitted s @ evs \<and> alternates (isInMaintenance s) evs
          \<and> isInMaintenance s' = (if even (length evs) then isInMaintenance s
                                   else \<not> isInMaintenance s)"
proof (induction ps arbitrary: s s' es)
  case Nil
  then show ?case by simp
next
  case (Cons p ps)
  obtain rnd t where p: "p = (rnd, t)" by (cases p)
  obtain s1 r where d: "dispatch t (ProbePath (rnd + 10)) s = (s1, r)"
    by (cases "dispatch t (ProbePath (rnd + 10)) s")
  note fr = dispatch_frame(2,3) [OF d]
  show ?case
  proof (cases r)
    case (Inl e)
    with d have "checkMaintenace rnd t s = (s1, Rejected e)"
      by (simp add: checkMaintenace_rejected)
    with Cons.prems p have "s' = s1" by simp
    with fr have "emitted s' = emitted s @ [] \<and> alternates (isInMaintenance s) []
        \<and> isInMaintenance s' = (if even (length ([] :: event list)) then isInMaintenance s
                                 else \<not> isInMaintenance s)"
      by simp
    then show ?thesis by blast
  next
    case (Inr data)
    note step = checkMaintenace_step [OF d [unfolded Inr]]
    then obtain s2 where c: "checkMaintenace rnd t s = (s2, Scheduled 30000)"
      by blast
    obtain s3 es' where rest: "probes ps s2 = (s3, es')"
      by (cases "probes ps s2")
    with Cons.prems p c have s': "s' = s3" by simp
    from Cons.IH [OF rest] obtain evs where
      evs: "emitted s3 = emitted s2 @ evs" "alternates (isInMaintenance s2) evs"
           "isInMaintenance s3 = (if even (length evs) then isInMaintenance s2
                                  else \<not> isInMaintenance s2)"
      by blast
    consider (start) "status data = 503 \<and> \<not> isInMaintenance s"
      | (finish) "status data = 200 \<and> isInMaintenance s"
      | (same) "\<not> (status data = 503 \<and> \<not> isInMaintenance s)"
               "\<not> (status data = 200 \<and> isInMaintenance s)"
      by blast
    then show ?thesis
    proof cases
      case start
      with step c have "s2 = s1\<lparr>isInMaintenance := True,
          emitted := emitted s @ [Emit ''maintenanceStart'' []]\<rparr>"
        by simp
      then have "emitted s2 = emitted s @ [Emit ''maintenanceStart'' []]" "isInMaintenance s2"
        by simp_all
      with evs start s' have "emitted s' = emitted s @ (Emit ''maintenanceStart'' [] # evs)
          \<and> alternates (isInMaintenance s) (Emit ''maintenanceStart'' [] # evs)
          \<and> isInMaintenance s' =
              (if even (length (Emit ''maintenanceStart'' [] # evs)) then isInMaintenance s
               else \<not> isInMaintenance s)"
        by simp
      then show ?thesis by blast
    next
      case finish
      with step c have "s2 = s1\<lparr>isInMaintenance := False,
          emitted := emitted s @ [Emit ''maintenanceEnd'' []]\<rparr>"
        by simp
      then have "emitted s2 = emitted s @ [Emit ''maintenanceEnd'' []]" "\<not> isInMaintenance s2"
        by simp_all
      with evs finish s' have "emitted s' = emitted s @ (Emit ''maintenanceEnd'' [] # evs)
          \<and> alternates (isInMaintenance s) (Emit ''maintenanceEnd'' [] # evs)
          \<and> isInMaintenance s' =
              (if even (length (Emit ''maintenanceEnd'' [] # evs)) then isInMaintenance s
               else \<not> isInMaintenance s)"
        by simp
      then show ?thesis by blast
    next
      case same
      with step c have "s2 = s1" by auto
      with fr have "emitted s2 = emitted s" "isInMaintenance s2 = isInMaintenance s"
        by simp_all
      with evs s' show ?thesis by auto
    qed
  qed
qed

text \<open>
  C7. A probe that returns a result: with status 503 while the flag is off it sets the
  flag and emits one \<^verbatim>\<open>maintenanceStart\<close>; with status 200 while the flag is on it
  clears the flag and emits one \<^verbatim>\<open>maintenanceEnd\<close>; in every other case the flag and the
  emitted events are as they were. A second probe with status 503 right after the first
  adds nothing to the one \<^verbatim>\<open>maintenanceStart\<close>. Over any sequence of probes the events
  emitted are starts and ends in alternation, beginning with the one the flag allows.
\<close>

theorem maintenance_edge_triggered:
  assumes "dispatch t (ProbePath (rnd + 10)) s = (s1, Inr data)"
  shows "(status data = 503 \<and> \<not> isInMaintenance s \<longrightarrow>
            checkMaintenace rnd t s =
              (s1\<lparr>isInMaintenance := True,
                  emitted := emitted s @ [Emit ''maintenanceStart'' []]\<rparr>, Scheduled 30000))
       \<and> (status data = 200 \<and> isInMaintenance s \<longrightarrow>
            checkMaintenace rnd t s =
              (s1\<lparr>isInMaintenance := False,
                  emitted := emitted s @ [Emit ''maintenanceEnd'' []]\<rparr>, Scheduled 30000))
       \<and> (\<not> (status data = 503 \<and> \<not> isInMaintenance s)
            \<and> \<not> (status data = 200 \<and> isInMaintenance s) \<longrightarrow>
            checkMaintenace rnd t s = (s1, Scheduled 30000))
       \<and> isInMaintenance s1 = isInMaintenance s \<and> emitted s1 = emitted s
       \<and> (\<forall>rnd' t' s2 data'.
            status data = 503 \<and> \<not> isInMaintenance s
            \<and> dispatch t' (ProbePath (rnd' + 10)) (fst (checkMaintenace rnd t s)) = (s2, Inr data')
            \<and> status data' = 503 \<longrightarrow>
            probes [(rnd, t), (rnd', t')] s = (s2, [Scheduled 30000, Scheduled 30000])
            \<and> isInMaintenance s2
            \<and> emitted s2 = emitted s @ [Emit ''maintenanceStart'' []])
       \<and> (\<forall>ps s' es. probes ps s = (s', es) \<longrightarrow>
            (\<exists>evs. emitted s' = emitted s @ evs \<and> alternates (isInMaintenance s) evs))"
proof -
  note step = checkMaintenace_step [OF assms]
  note fr = dispatch_frame(2,3) [OF assms]
  have two: "probes [(rnd, t), (rnd', t')] s = (s2, [Scheduled 30000, Scheduled 30000])
             \<and> isInMaintenance s2
             \<and> emitted s2 = emitted s @ [Emit ''maintenanceStart'' []]"
    if first: "status data = 503 \<and> \<not> isInMaintenance s"
      and d': "dispatch t' (ProbePath (rnd' + 10)) (fst (checkMaintenace rnd t s)) = (s2, Inr data')"
      and second: "status data' = 503"
    for rnd' t' s2 data'
  proof -
    let ?m = "s1\<lparr>isInMaintenance := True,
                 emitted := emitted s @ [Emit ''maintenanceStart'' []]\<rparr>"
    have c1: "checkMaintenace rnd t s = (?m, Scheduled 30000)"
      using step first by simp
    then have d2: "dispatch t' (ProbePath (rnd' + 10)) ?m = (s2, Inr data')"
      using d' by simp
    have m: "isInMaintenance ?m" by simp
    have c2: "checkMaintenace rnd' t' ?m = (s2, Scheduled 30000)"
      using checkMaintenace_step [OF d2] m second by simp
    have "isInMaintenance s2" "emitted s2 = emitted ?m"
      using dispatch_frame(2,3) [OF d2] by simp_all
    then show ?thesis using c1 c2 by simp
  qed
  have alt: "\<exists>evs. emitted s' = emitted s @ evs \<and> alternates (isInMaintenance s) evs"
    if "probes ps s = (s', es)" for ps s' es
    using probes_alternate [OF that] by blast
  show ?thesis
    using step fr two alt by (intro conjI allI impI) (simp_all, blast+)
qed

theorem maintenance_edge_triggered_witness:
  "probes [(0, answer 503), (3, answer 503)] one_clan
   = (one_clan\<lparr>isInMaintenance := True, emitted := [Emit ''maintenanceStart'' []],
               requested := [(ProbePath 10, Some ''A''), (ProbePath 13, Some ''A'')]\<rparr>,
      [Scheduled 30000, Scheduled 30000])"
proof -
  let ?r = "Augmented (JObj []) (Number (Some ''600'')) 503 False"
  let ?s1 = "one_clan\<lparr>requested := [(ProbePath 10, Some ''A'')]\<rparr>"
  let ?s2 = "one_clan\<lparr>isInMaintenance := True, emitted := [Emit ''maintenanceStart'' []],
               requested := [(ProbePath 10, Some ''A''), (ProbePath 13, Some ''A'')]\<rparr>"
  have d1: "dispatch (answer 503) (ProbePath (0 + 10)) one_clan = (?s1, Inr ?r)"
    by code_simp
  have off: "\<not> isInMaintenance one_clan" by (simp add: one_clan_def)
  have d2: "dispatch (answer 503) (ProbePath (3 + 10))
              (fst (checkMaintenace 0 (answer 503) one_clan)) = (?s2, Inr ?r)"
    by code_simp
  have st: "status ?r = 503" by simp
  note two = maintenance_edge_triggered [OF d1, THEN conjunct2, THEN conjunct2, THEN conjunct2,
      THEN conjunct2, THEN conjunct2, THEN conjunct1, rule_format]
  have "probes [(0, answer 503), (3, answer 503)] one_clan
          = (?s2, [Scheduled 30000, Scheduled 30000])
        \<and> isInMaintenance ?s2
        \<and> emitted ?s2 = emitted one_clan @ [Emit ''maintenanceStart'' []]"
    using st off d2 by (intro two conjI)
  then show ?thesis by (rule conjunct1)
qed


section \<open>Properties of the watch sets\<close>

lemma st_entries_simps [simp]:
  "st_entries [] = []"
  "st_entries (None # es) = st_entries es"
  "st_entries (Some kv # es) = kv # st_entries es"
  "st_entries (es @ es') = st_entries es @ st_entries es'"
  by (simp_all add: st_entries_def List.map_filter_def)

lemma st_keys_simps [simp]:
  "st_keys [] = []"
  "st_keys (None # es) = st_keys es"
  "st_keys (Some (k, v) # es) = k # st_keys es"
  "st_keys (es @ es') = st_keys es @ st_keys es'"
  by (simp_all add: st_keys_def)

lemma st_keys_clear [simp]: "st_keys (st_clear es) = []"
  by (induction es) (simp_all add: st_clear_def)

lemma st_entries_clear [simp]: "st_entries (st_clear es) = []"
  by (induction es) (simp_all add: st_clear_def)

lemma st_keys_delete: "st_keys (st_delete k es) = filter (\<lambda>k'. k' \<noteq> k) (st_keys es)"
proof (induction es)
  case Nil
  then show ?case by (simp add: st_delete_def)
next
  case (Cons e es)
  then show ?case
    by (cases e) (auto simp: st_delete_def)
qed

lemma st_keys_overwrite:
  "st_keys (map (\<lambda>e. case e of None \<Rightarrow> None
                      | Some (k', v') \<Rightarrow> if k' = k then Some (k, v) else Some (k', v')) es)
   = st_keys es"
proof (induction es)
  case Nil
  then show ?case by simp
next
  case (Cons e es)
  then show ?case by (cases e) auto
qed

lemma st_keys_set:
  "st_keys (st_set k v es) = (if st_has k es then st_keys es else st_keys es @ [k])"
  by (simp add: st_set_def st_keys_overwrite)

lemma st_set_absent:
  "\<not> st_has k es \<Longrightarrow> st_set k v es = es @ [Some (k, v)]"
  by (simp add: st_set_def)

lemma distinct_st_set: "distinct (st_keys es) \<Longrightarrow> distinct (st_keys (st_set k v es))"
  by (simp add: st_keys_set st_has_def)

lemma distinct_st_delete: "distinct (st_keys es) \<Longrightarrow> distinct (st_keys (st_delete k es))"
  by (simp add: st_keys_delete)

lemma distinct_st_apply: "distinct (st_keys es) \<Longrightarrow> distinct (st_keys (st_apply x es))"
  by (cases x) (simp_all add: distinct_st_set distinct_st_delete)

lemma distinct_fold_st_apply:
  "distinct (st_keys es) \<Longrightarrow> distinct (st_keys (fold st_apply ops es))"
  by (induction ops arbitrary: es) (simp_all add: distinct_st_apply)

lemma no_duplicates_iff: "no_duplicates s = (\<forall>c. distinct (st_keys (store_of c s)))"
proof
  assume "no_duplicates s"
  then show "\<forall>c. distinct (st_keys (store_of c s))"
    by (auto simp: no_duplicates_def intro: category.induct)
next
  assume a: "\<forall>c. distinct (st_keys (store_of c s))"
  from a [rule_format, of Clan] a [rule_format, of Player] a [rule_format, of War]
  show "no_duplicates s" by (simp add: no_duplicates_def)
qed

lemma store_of_add_one:
  "store_of c (add_one cat msg s) =
     (case validateTag msg False of
        None \<Rightarrow> store_of c s
      | Some tag \<Rightarrow>
          if c = cat \<and> \<not> st_has tag (store_of c s)
          then store_of c s @ [Some (tag, JObj [])] else store_of c s)"
  by (auto simp: add_one_def st_set_absent split: option.splits)

lemma store_of_remove_one:
  "store_of c (remove_one cat msg s) =
     (case validateTag msg False of
        None \<Rightarrow> store_of c s
      | Some tag \<Rightarrow>
          if c = cat \<and> st_has tag (store_of c s)
          then st_delete tag (store_of c s) else store_of c s)"
  by (auto simp: remove_one_def split: option.splits)

lemma add_one_no_duplicates: "no_duplicates s \<Longrightarrow> no_duplicates (add_one cat msg s)"
  by (auto simp: no_duplicates_iff store_of_add_one st_has_def split: option.splits)

lemma remove_one_no_duplicates: "no_duplicates s \<Longrightarrow> no_duplicates (remove_one cat msg s)"
  by (auto simp: no_duplicates_iff store_of_remove_one distinct_st_delete split: option.splits)

lemma fold_invariant:
  assumes "\<And>x s. P s \<Longrightarrow> P (f x s)" and "P s"
  shows "P (fold f xs s)"
  using assms(2) by (induction xs arbitrary: s) (simp_all add: assms(1))

lemma addTags_no_duplicates: "no_duplicates s \<Longrightarrow> no_duplicates (addTags cat tags s)"
  unfolding addTags_def by (rule fold_invariant) (simp_all add: add_one_no_duplicates)

lemma removeTags_no_duplicates: "no_duplicates s \<Longrightarrow> no_duplicates (removeTags cat tags s)"
  unfolding removeTags_def by (rule fold_invariant) (simp_all add: remove_one_no_duplicates)

lemma clearTags_no_duplicates: "no_duplicates s \<Longrightarrow> no_duplicates (clearTags cat s)"
  by (simp add: no_duplicates_iff clearTags_def)

lemma no_duplicates_update [simp]:
  "no_duplicates (s\<lparr>activeToken := a\<rparr>) = no_duplicates s"
  "no_duplicates (s\<lparr>requested := r\<rparr>) = no_duplicates s"
  "no_duplicates (s\<lparr>emitted := e\<rparr>) = no_duplicates s"
  "no_duplicates (s\<lparr>isInMaintenance := b\<rparr>) = no_duplicates s"
  by (simp_all add: no_duplicates_def)

lemma api_no_duplicates: "no_duplicates s \<Longrightarrow> no_duplicates (api x s)"
  by (cases x)
     (simp_all add: addTags_no_duplicates removeTags_no_duplicates clearTags_no_duplicates)

lemma fold_api_no_duplicates: "no_duplicates s \<Longrightarrow> no_duplicates (fold api xs s)"
  by (rule fold_invariant) (simp_all add: api_no_duplicates)

lemma dispatch_no_duplicates:
  assumes "dispatch t p s = (s1, r)" and "no_duplicates s"
  shows "no_duplicates s1"
proof -
  from assms(1) obtain a q where "s1 = fold api (during t) (s\<lparr>activeToken := a, requested := q\<rparr>)"
    by (auto simp: dispatch_def token_eq Let_def)
  with assms(2) show ?thesis by (simp add: fold_api_no_duplicates)
qed

lemma run_handler_no_duplicates:
  "no_duplicates s \<Longrightarrow> no_duplicates (run_handler cat h tag data s)"
  by (auto simp: run_handler_def no_duplicates_iff distinct_fold_st_apply split: prod.splits)

lemma sweep_loop_no_duplicates:
  "sweep_loop cat h env pos s = (s', e) \<Longrightarrow> no_duplicates s \<Longrightarrow> no_duplicates s'"
proof (induction env arbitrary: pos s)
  case Nil
  then show ?case
    by (subst (asm) sweep_loop.simps) (auto split: option.splits if_splits)
next
  case (Cons t env)
  from Cons.prems show ?case
    by (subst (asm) sweep_loop.simps)
       (auto split: option.splits if_splits prod.splits sum.splits
             dest: dispatch_no_duplicates
             intro: Cons.IH run_handler_no_duplicates)
qed

lemma sweep_no_duplicates:
  assumes "no_duplicates s"
  shows "no_duplicates (fst (sweep cat h t0 t1 env s))"
proof (cases "isInMaintenance s")
  case True
  with assms show ?thesis by (simp add: sweep_def)
next
  case False
  obtain s1 e where l: "sweep_loop cat h env 0 s = (s1, e)"
    by (cases "sweep_loop cat h env 0 s")
  then have n: "no_duplicates s1" using assms by (rule sweep_loop_no_duplicates)
  then have "no_duplicates (set_loopBreak cat False (map_store cat st_clear s1))"
    by (simp add: no_duplicates_iff)
  with n False l show ?thesis
    by (cases e) (simp_all add: sweep_def Let_def)
qed

lemma constructor_no_duplicates: "Events_constructor options = Inr s \<Longrightarrow> no_duplicates s"
  by (auto simp: Events_constructor_def Let_def no_duplicates_def)

lemma normalised_add_one:
  "normalised (store_of c s) \<Longrightarrow> normalised (store_of c (add_one cat msg s))"
  by (auto simp: store_of_add_one normalised_def validateTag_twice split: option.splits)

lemma normalised_remove_one:
  "normalised (store_of c s) \<Longrightarrow> normalised (store_of c (remove_one cat msg s))"
  by (auto simp: store_of_remove_one normalised_def st_keys_delete list_all_iff
           split: option.splits)

lemma normalised_addTags:
  "normalised (store_of c s) \<Longrightarrow> normalised (store_of c (addTags cat tags s))"
  unfolding addTags_def
  by (rule fold_invariant [where P = "\<lambda>s. normalised (store_of c s)"])
     (simp_all add: normalised_add_one)

lemma normalised_removeTags:
  "normalised (store_of c s) \<Longrightarrow> normalised (store_of c (removeTags cat tags s))"
  unfolding removeTags_def
  by (rule fold_invariant [where P = "\<lambda>s. normalised (store_of c s)"])
     (simp_all add: normalised_remove_one)

lemma normalised_clearTags: "normalised (store_of c (clearTags cat s))"
  if "normalised (store_of c s)"
  using that by (simp add: clearTags_def normalised_def)

lemma add_one_present:
  "validateTag msg False = Some t \<Longrightarrow> st_has t (store_of cat s) \<Longrightarrow> add_one cat msg s = s"
  by (simp add: add_one_def)

lemma add_one_absent:
  "validateTag msg False = Some t \<Longrightarrow> \<not> st_has t (store_of cat s) \<Longrightarrow>
     add_one cat msg s = map_store cat (\<lambda>es. es @ [Some (t, JObj [])]) s"
  by (cases cat) (simp_all add: add_one_def st_set_absent)

text \<open>
  C8. Adding a tag that the watch set holds changes nothing: the engine is the same, so
  are the contents, the order and the snapshots. Adding a valid tag that the watch set
  does not hold puts it last, with the empty snapshot \<^verbatim>\<open>{}\<close>, and leaves the other
  watch sets alone. No operation of the public interface and no sweep pass gives a watch
  set a key twice, and the watch sets of a new engine are empty; the keys that the public
  interface gives them are normalised tags, so that each of them can be added again to
  no effect.
\<close>

theorem add_idempotent:
  "(validateTag msg False = Some t \<and> st_has t (store_of cat s) \<longrightarrow>
      addTags cat (One msg) s = s)
   \<and> (normalised (store_of cat s) \<and> st_has t (store_of cat s) \<longrightarrow>
      addTags cat (One t) s = s)
   \<and> (validateTag msg False = Some t \<and> \<not> st_has t (store_of cat s) \<longrightarrow>
      store_of cat (addTags cat (One msg) s) = store_of cat s @ [Some (t, JObj [])]
      \<and> st_keys (store_of cat (addTags cat (One msg) s)) = st_keys (store_of cat s) @ [t]
      \<and> st_get t (store_of cat (addTags cat (One msg) s)) = Some (JObj [])
      \<and> (\<forall>c. c \<noteq> cat \<longrightarrow> store_of c (addTags cat (One msg) s) = store_of c s))
   \<and> (no_duplicates s \<longrightarrow>
      no_duplicates (addTags cat tags s) \<and> no_duplicates (removeTags cat tags s)
      \<and> no_duplicates (clearTags cat s)
      \<and> no_duplicates (fst (sweep cat h t0 t1 env s)))
   \<and> (normalised (store_of c s) \<longrightarrow>
      normalised (store_of c (addTags cat tags s))
      \<and> normalised (store_of c (removeTags cat tags s))
      \<and> normalised (store_of c (clearTags cat s)))
   \<and> (\<forall>options s0. Events_constructor options = Inr s0 \<longrightarrow>
      no_duplicates s0 \<and> st_keys (store_of c s0) = [])"
proof -
  have present: "addTags cat (One msg) s = s"
    if "validateTag msg False = Some t" "st_has t (store_of cat s)"
    using that by (simp add: addTags_def add_one_present)
  have again: "addTags cat (One t) s = s"
    if n: "normalised (store_of cat s)" and h: "st_has t (store_of cat s)"
  proof -
    from n h have "validateTag t False = Some t"
      by (simp add: normalised_def st_has_def list_all_iff)
    with h show ?thesis by (simp add: addTags_def add_one_present)
  qed
  have absent: "store_of cat (addTags cat (One msg) s) = store_of cat s @ [Some (t, JObj [])]
      \<and> st_keys (store_of cat (addTags cat (One msg) s)) = st_keys (store_of cat s) @ [t]
      \<and> st_get t (store_of cat (addTags cat (One msg) s)) = Some (JObj [])
      \<and> (\<forall>c. c \<noteq> cat \<longrightarrow> store_of c (addTags cat (One msg) s) = store_of c s)"
    if v: "validateTag msg False = Some t" and a: "\<not> st_has t (store_of cat s)"
  proof -
    have e: "addTags cat (One msg) s = map_store cat (\<lambda>es. es @ [Some (t, JObj [])]) s"
      using v a by (simp add: addTags_def add_one_absent)
    have "t \<notin> fst ` set (st_entries (store_of cat s))"
      using a by (simp add: st_has_def st_keys_def)
    then have "map_of (st_entries (store_of cat s)) t = None"
      by (simp add: map_of_eq_None_iff)
    then have "st_get t (store_of cat s @ [Some (t, JObj [])]) = Some (JObj [])"
      by (simp add: st_get_def map_add_def)
    then show ?thesis by (simp add: e)
  qed
  have dup: "no_duplicates (addTags cat tags s) \<and> no_duplicates (removeTags cat tags s)
      \<and> no_duplicates (clearTags cat s)
      \<and> no_duplicates (fst (sweep cat h t0 t1 env s))" if "no_duplicates s"
    using that
    by (simp add: addTags_no_duplicates removeTags_no_duplicates clearTags_no_duplicates
                  sweep_no_duplicates)
  have norm: "normalised (store_of c (addTags cat tags s))
      \<and> normalised (store_of c (removeTags cat tags s))
      \<and> normalised (store_of c (clearTags cat s))" if "normalised (store_of c s)"
    using that by (simp add: normalised_addTags normalised_removeTags normalised_clearTags)
  have new: "no_duplicates s0 \<and> st_keys (store_of c s0) = []"
    if "Events_constructor options = Inr s0" for options s0
  proof -
    from that have "clans s0 = []" "players s0 = []" "wars s0 = []"
      by (auto simp: Events_constructor_def Let_def)
    then have "st_keys (store_of c s0) = []" by (cases c) simp_all
    with that show ?thesis by (simp add: constructor_no_duplicates)
  qed
  show ?thesis
    using present again absent dup norm new by (intro conjI impI allI) blast+
qed

theorem add_idempotent_witness:
  "addTags Clan (One ''2ppo'') (addTags Clan (Many [''#2PP'', ''#2pp0'']) one_clan)
     = addTags Clan (Many [''#2PP'', ''#2pp0'']) one_clan
   \<and> clans (addTags Clan (Many [''#2PP'', ''#2pp0'']) one_clan)
     = [Some (''#2PP'', JObj []), Some (''#2PP0'', JObj [])]"
proof -
  let ?s = "addTags Clan (Many [''#2PP'', ''#2pp0'']) one_clan"
  have v: "validateTag ''2ppo'' False = Some ''#2PP0''" by code_simp
  have c: "clans ?s = [Some (''#2PP'', JObj []), Some (''#2PP0'', JObj [])]" by code_simp
  then have h: "st_has ''#2PP0'' (store_of Clan ?s)" by (simp add: st_has_def)
  from add_idempotent [of "''2ppo''" "''#2PP0''" Clan ?s] v h
  have "addTags Clan (One ''2ppo'') ?s = ?s" by blast
  with c show ?thesis by simp
qed

text \<open>
  C9. An entry whose tag fails validation is passed over: adding or removing it alone
  leaves the engine as it is, and in a batch the result is that of the batch without it.
  The operations have no failing branch.
\<close>

theorem malformed_tag_skipped:
  assumes "validateTag bad False = None"
  shows "addTags cat (One bad) s = s
       \<and> removeTags cat (One bad) s = s
       \<and> addTags cat (Many (xs @ bad # ys)) s = addTags cat (Many (xs @ ys)) s
       \<and> removeTags cat (Many (xs @ bad # ys)) s = removeTags cat (Many (xs @ ys)) s"
proof -
  have a: "add_one cat bad s' = s'" for s'
    using assms by (simp add: add_one_def)
  have r: "remove_one cat bad s' = s'" for s'
    using assms by (simp add: remove_one_def)
  show ?thesis
    by (simp add: addTags_def removeTags_def a r)
qed

theorem malformed_tag_skipped_witness:
  "validateTag ''#2P'' False = None
   \<and> clans (addTags Clan (Many [''#8QU8J9LP'', ''#2P'', ''#999'']) one_clan)
     = [Some (''#2PP'', JObj []), Some (''#8QU8J9LP'', JObj []), Some (''#999'', JObj [])]"
proof -
  have v: "validateTag ''#2P'' False = None" by code_simp
  have "clans (addTags Clan (Many ([''#8QU8J9LP''] @ [''#999''])) one_clan)
     = [Some (''#2PP'', JObj []), Some (''#8QU8J9LP'', JObj []), Some (''#999'', JObj [])]"
    by code_simp
  moreover from malformed_tag_skipped [OF v, of Clan one_clan "[''#8QU8J9LP'']" "[''#999'']"]
  have "addTags Clan (Many ([''#8QU8J9LP''] @ ''#2P'' # [''#999''])) one_clan
      = addTags Clan (Many ([''#8QU8J9LP''] @ [''#999''])) one_clan"
    by blast
  ultimately show ?thesis using v by simp
qed


section \<open>Clearing a watch set\<close>

lemma sweep_loop_break:
  "loopBreak cat s \<Longrightarrow> sweep_loop cat h env pos s = (s, None)"
  by (subst sweep_loop.simps) (simp split: option.splits)

lemma loopBreak_api_mono: "loopBreak c s \<Longrightarrow> loopBreak c (api x s)"
  by (cases x) simp_all

lemma loopBreak_fold_api_mono: "loopBreak c s \<Longrightarrow> loopBreak c (fold api xs s)"
  by (rule fold_invariant) (simp_all add: loopBreak_api_mono)

lemma loopBreak_fold_api_clear:
  "Clear cat \<in> set xs \<Longrightarrow> loopBreak cat (fold api xs s)"
proof (induction xs arbitrary: s)
  case Nil
  then show ?case by simp
next
  case (Cons x xs)
  show ?case
  proof (cases "x = Clear cat")
    case True
    then have "loopBreak cat (api x s)" by simp
    then show ?thesis by (simp add: loopBreak_fold_api_mono)
  next
    case False
    with Cons.prems have "Clear cat \<in> set xs" by simp
    then show ?thesis by (simp add: Cons.IH)
  qed
qed

lemma dispatch_clear:
  assumes "dispatch t p s = (s1, r)" and "Clear cat \<in> set (during t)"
  shows "loopBreak cat s1"
  using assms by (auto simp: dispatch_def token_eq Let_def loopBreak_fold_api_clear)

lemma st_keys_empty_iff: "(st_keys es = []) = (\<forall>e \<in> set es. e = None)"
proof (induction es)
  case Nil
  then show ?case by simp
next
  case (Cons e es)
  then show ?case by (cases e) auto
qed

lemma first_live_none: "\<forall>e \<in> set es. e = None \<Longrightarrow> first_live es i = None"
  by (induction es arbitrary: i) auto

lemma st_next_empty: "st_keys es = [] \<Longrightarrow> st_next es i = None"
proof -
  assume "st_keys es = []"
  then have "\<forall>e \<in> set es. e = None" by (simp add: st_keys_empty_iff)
  then have "\<forall>e \<in> set (drop i es). e = None" by (blast dest: in_set_dropD)
  then show ?thesis unfolding st_next_def by (rule first_live_none)
qed

lemma sweep_loop_empty:
  "st_keys (store_of cat s) = [] \<Longrightarrow> sweep_loop cat h env pos s = (s, None)"
  by (subst sweep_loop.simps) (simp add: st_next_empty)

lemma sweep_aborted:
  assumes "\<not> isInMaintenance s" and "sweep_loop cat h env 0 s = (s2, None)"
    and "loopBreak cat s2"
  shows "sweep cat h t0 t1 env s =
           (set_loopBreak cat False (map_store cat st_clear s2),
            Scheduled (max 0 (refreshRate s - (t1 - t0))))"
proof -
  have "settings s2 = settings s" using assms(2) by (auto dest: sweep_loop_frame)
  then have "refreshRate s2 = refreshRate s" by (simp add: settings_def)
  moreover have "settings (set_loopBreak cat False (map_store cat st_clear s2)) = settings s2"
    by simp
  then have "refreshRate (set_loopBreak cat False (map_store cat st_clear s2)) = refreshRate s2"
    by (simp add: settings_def)
  ultimately show ?thesis
    using assms by (simp add: sweep_def Let_def max_def)
qed

lemma sweep_nothing_watched:
  assumes "\<not> isInMaintenance s" and "st_keys (store_of cat s) = []" and "\<not> loopBreak cat s"
  shows "sweep cat h t0 t1 env s = (s, Scheduled (max 0 (refreshRate s - (t1 - t0))))"
  using assms by (simp add: sweep_def sweep_loop_empty Let_def max_def)

text \<open>
  C6. \<^verbatim>\<open>clear*\<close> empties the watch set of its category and sets the abort flag of that
  category. A tag loop that finds the flag set stops there, with no further request. When
  the flag is set while a request is in flight, that request is still handled and the
  loop stops before the next tag: the cancellation is cooperative. A pass whose loop ended
  with the flag set empties the watch set again, resets the flag and schedules the next
  pass; the pass that starts from the engine it leaves makes no request and changes
  nothing.
\<close>

theorem clear_cooperative:
  "st_keys (store_of cat (clearTags cat s)) = [] \<and> loopBreak cat (clearTags cat s)
   \<and> (loopBreak cat s \<longrightarrow> sweep_loop cat h env pos s = (s, None))
   \<and> (\<not> loopBreak cat s \<and> st_next (store_of cat s) pos = Some (tag, pos')
        \<and> dispatch t (path_of cat tag) s = (s1, Inr data) \<and> Clear cat \<in> set (during t) \<longrightarrow>
        sweep_loop cat h (t # env) pos s = (run_handler cat h tag data s1, None)
        \<and> loopBreak cat (run_handler cat h tag data s1)
        \<and> requested (run_handler cat h tag data s1)
            = requested s @ [(path_of cat tag, js_index (tokens s) (activeToken s))])
   \<and> (\<not> isInMaintenance s \<and> sweep_loop cat h env 0 s = (s2, None) \<and> loopBreak cat s2 \<longrightarrow>
        sweep cat h t0 t1 env s =
          (set_loopBreak cat False (map_store cat st_clear s2),
           Scheduled (max 0 (refreshRate s - (t1 - t0))))
        \<and> st_keys (store_of cat (set_loopBreak cat False (map_store cat st_clear s2))) = []
        \<and> \<not> loopBreak cat (set_loopBreak cat False (map_store cat st_clear s2))
        \<and> sweep cat h t0' t1' env' (set_loopBreak cat False (map_store cat st_clear s2)) =
          (set_loopBreak cat False (map_store cat st_clear s2),
           Scheduled (max 0 (refreshRate s - (t1' - t0'))))
        \<and> requested (set_loopBreak cat False (map_store cat st_clear s2)) = requested s2)"
proof -
  have cl: "st_keys (store_of cat (clearTags cat s)) = [] \<and> loopBreak cat (clearTags cat s)"
    by (simp add: clearTags_def)
  have brk: "sweep_loop cat h env pos s = (s, None)" if "loopBreak cat s"
    using that by (rule sweep_loop_break)
  have mid: "sweep_loop cat h (t # env) pos s = (run_handler cat h tag data s1, None)
        \<and> loopBreak cat (run_handler cat h tag data s1)
        \<and> requested (run_handler cat h tag data s1)
            = requested s @ [(path_of cat tag, js_index (tokens s) (activeToken s))]"
    if off: "\<not> loopBreak cat s" and nx: "st_next (store_of cat s) pos = Some (tag, pos')"
      and d: "dispatch t (path_of cat tag) s = (s1, Inr data)"
      and c: "Clear cat \<in> set (during t)"
  proof -
    have f: "loopBreak cat (run_handler cat h tag data s1)"
      using dispatch_clear [OF d c] by simp
    have "sweep_loop cat h (t # env) pos s
            = sweep_loop cat h env pos' (run_handler cat h tag data s1)"
      using off nx d by (subst sweep_loop.simps) simp
    also have "\<dots> = (run_handler cat h tag data s1, None)"
      using f by (rule sweep_loop_break)
    finally show ?thesis
      using f dispatch_frame(4) [OF d] by simp
  qed
  have fin: "sweep cat h t0 t1 env s =
          (set_loopBreak cat False (map_store cat st_clear s2),
           Scheduled (max 0 (refreshRate s - (t1 - t0))))
        \<and> st_keys (store_of cat (set_loopBreak cat False (map_store cat st_clear s2))) = []
        \<and> \<not> loopBreak cat (set_loopBreak cat False (map_store cat st_clear s2))
        \<and> sweep cat h t0' t1' env' (set_loopBreak cat False (map_store cat st_clear s2)) =
          (set_loopBreak cat False (map_store cat st_clear s2),
           Scheduled (max 0 (refreshRate s - (t1' - t0'))))
        \<and> requested (set_loopBreak cat False (map_store cat st_clear s2)) = requested s2"
    if m: "\<not> isInMaintenance s" and l: "sweep_loop cat h env 0 s = (s2, None)"
      and b: "loopBreak cat s2"
  proof -
    let ?s' = "set_loopBreak cat False (map_store cat st_clear s2)"
    have fr: "settings s2 = settings s" "isInMaintenance s2 = isInMaintenance s"
      using l by (auto dest: sweep_loop_frame)
    have r: "refreshRate ?s' = refreshRate s"
    proof -
      have "settings ?s' = settings s" using fr(1) by simp
      then show ?thesis by (simp add: settings_def)
    qed
    have m': "\<not> isInMaintenance ?s'" using m fr(2) by simp
    have k: "st_keys (store_of cat ?s') = []" by simp
    have o: "\<not> loopBreak cat ?s'" by simp
    have "sweep cat h t0' t1' env' ?s'
            = (?s', Scheduled (max 0 (refreshRate ?s' - (t1' - t0'))))"
      using m' k o by (rule sweep_nothing_watched)
    then show ?thesis
      using sweep_aborted [OF m l b] r k o by simp
  qed
  show ?thesis
    using cl brk mid fin by (intro conjI impI) blast+
qed

theorem clear_cooperative_witness:
  "sweep Clan keep_status 0 1500 [answer_cleared 200, answer 200] two_clans
   = (two_clans\<lparr>clans := [None, None, None],
                 requested := [(ClanPath ''#2PP'', Some ''A'')]\<rparr>, Scheduled 0)"
proof -
  let ?data = "Augmented (JObj []) (Number (Some ''600'')) 200 True"
  let ?s1 = "two_clans\<lparr>clans := [None, None], loopBreak_clan := True,
                        requested := [(ClanPath ''#2PP'', Some ''A'')]\<rparr>"
  let ?s2 = "run_handler Clan keep_status ''#2PP'' ?data ?s1"
  have off: "\<not> loopBreak Clan two_clans" by code_simp
  have nx: "st_next (store_of Clan two_clans) 0 = Some (''#2PP'', 1)" by code_simp
  have d: "dispatch (answer_cleared 200) (path_of Clan ''#2PP'') two_clans = (?s1, Inr ?data)"
    by code_simp
  have c: "Clear Clan \<in> set (during (answer_cleared 200))"
    by (simp add: answer_cleared_def)
  note at_tag = clear_cooperative [of Clan two_clans keep_status "[answer 200]" 0 "''#2PP''" 1
      "answer_cleared 200" ?s1 ?data ?s2 0 1500]
  from at_tag off nx d c
  have l: "sweep_loop Clan keep_status [answer_cleared 200, answer 200] 0 two_clans = (?s2, None)"
    and b: "loopBreak Clan ?s2"
    by blast+
  have m: "\<not> isInMaintenance two_clans" by code_simp
  note at_end = clear_cooperative [of Clan two_clans keep_status
      "[answer_cleared 200, answer 200]" 0 "''#2PP''" 1
      "answer_cleared 200" ?s1 ?data ?s2 0 1500]
  from at_end m l b
  have "sweep Clan keep_status 0 1500 [answer_cleared 200, answer 200] two_clans =
          (set_loopBreak Clan False (map_store Clan st_clear ?s2),
           Scheduled (max 0 (refreshRate two_clans - (1500 - 0))))"
    by blast
  moreover have "set_loopBreak Clan False (map_store Clan st_clear ?s2)
      = two_clans\<lparr>clans := [None, None, None],
                   requested := [(ClanPath ''#2PP'', Some ''A'')]\<rparr>"
    by code_simp
  moreover have "max 0 (refreshRate two_clans - (1500 - 0)) = 0"
    by code_simp
  ultimately show ?thesis by simp
qed

end
